theory Spec2Isabelle
  imports Main "HOL-Library.AList"
begin

section \<open>The buffer manager of src/BufMgr/src/buffer.cpp\<close>

text \<open>
  The manager keeps \<open>numBufs\<close> frames. Frame \<open>i\<close> is described by \<open>bufDescTable[i]\<close>
  and holds the page \<open>bufPool[i]\<close>; \<open>hashTable\<close> maps (file, page number) to the frame
  holding that page and \<open>clockHand\<close> is the cursor of the replacement scan.

  Every method mutates the manager and may throw. A method is modelled as a function from
  the state before the call to the state after it paired with \<open>Inr\<close> its result or
  \<open>Inl\<close> the exception that left it. The state after a throw is the state at the throw.

  \<open>FrameId\<close> and \<open>PageId\<close> are 32-bit unsigned integers in the source; they are natural
  numbers here. The only places where the source can wrap are written out: the constructor's
  \<open>bufs - 1\<close> and \<open>clockHand + 1\<close> in \<open>advanceClock\<close>. The counter of the scan loop of
  \<open>allocBuf\<close> wraps only for a pool of \<open>2^32 - 1\<close> frames, which \<open>wf_mgr\<close> below excludes.
  A \<open>File*\<close> held by a descriptor (field \<open>fileP\<close>) is a \<open>File option\<close>, \<open>None\<close> the null pointer; the
  \<open>File*\<close> argument of a public method is a \<open>File\<close>, the identity of a file object.
\<close>

type_synonym FrameId = nat
type_synonym PageId = nat
type_synonym File = nat

record Page =
  page_number :: PageId
  contents :: nat

datatype error =
    BufferExceeded
  | PageNotPinned File PageId FrameId
  | PagePinned File PageId FrameId
  | HashNotFound
  | InvalidPage File PageId
  | NullFile

subsection \<open>The file collaborator\<close>

text \<open>
  Modelled from the spec: the class \<open>File\<close> is not under src/. The spec (section 6) gives
  its contract: \<open>readPage(pageNumber)\<close> returns the page and fails if the page does not
  exist; \<open>writePage(pageBuffer)\<close> writes a page back at the number embedded in the buffer;
  \<open>allocatePage()\<close> grows the file and returns a fresh page number; \<open>deletePage(pageNumber)\<close>
  deletes the page. The pages of all files are an association list from (file, page number)
  to contents, \<open>fresh f\<close> is the next page number file \<open>f\<close> hands out, and \<open>trace\<close> records
  every call made to a file, oldest first.
\<close>

datatype io_event =
    IoRead File PageId
  | IoWrite File Page
  | IoAllocate File PageId
  | IoDelete File PageId

record Disk =
  stored :: "((File \<times> PageId) \<times> nat) list"
  fresh :: "File \<Rightarrow> PageId"
  trace :: "io_event list"

definition file_readPage :: "File \<Rightarrow> PageId \<Rightarrow> Disk \<Rightarrow> Disk \<times> (error + Page)" where
  "file_readPage f p fs =
     (fs\<lparr>trace := trace fs @ [IoRead f p]\<rparr>,
      case map_of (stored fs) (f, p) of
        None \<Rightarrow> Inl (InvalidPage f p)
      | Some c \<Rightarrow> Inr \<lparr>page_number = p, contents = c\<rparr>)"

definition file_writePage :: "File \<Rightarrow> Page \<Rightarrow> Disk \<Rightarrow> Disk" where
  "file_writePage f pg fs =
     fs\<lparr>stored := AList.update (f, page_number pg) (contents pg) (stored fs),
        trace := trace fs @ [IoWrite f pg]\<rparr>"

definition file_allocatePage :: "File \<Rightarrow> Disk \<Rightarrow> Disk \<times> Page" where
  "file_allocatePage f fs =
     (let p = fresh fs f
      in (fs\<lparr>stored := AList.update (f, p) 0 (stored fs),
              fresh := (fresh fs)(f := p + 1),
              trace := trace fs @ [IoAllocate f p]\<rparr>,
          \<lparr>page_number = p, contents = 0\<rparr>))"

definition file_deletePage :: "File \<Rightarrow> PageId \<Rightarrow> Disk \<Rightarrow> Disk" where
  "file_deletePage f p fs =
     fs\<lparr>stored := AList.delete (f, p) (stored fs),
        trace := trace fs @ [IoDelete f p]\<rparr>"

subsection \<open>Frame descriptors\<close>

record BufDesc =
  fileP :: "File option"
  pageNo :: PageId
  frameNo :: FrameId
  pinCnt :: nat
  dirty :: bool
  valid :: bool
  refbit :: bool

text \<open>
  Modelled from the spec: \<open>BufDesc::Clear\<close> and \<open>BufDesc::Set\<close> are declared in buffer.h,
  which is not under src/. \<open>Clear\<close> resets a descriptor to the empty state (section 4.1,
  step 5): no identity, pin count 0, not dirty, not valid, reference bit clear. \<open>Set\<close>
  gives it the identity of a page with pin count 1, not dirty, valid (sections 4.2 and 4.4);
  the reference bit is set by the caller (line 116). The pin count is a non-negative integer
  (section 3).
\<close>

definition BufDesc_Clear :: "BufDesc \<Rightarrow> BufDesc" where
  "BufDesc_Clear d =
     d\<lparr>fileP := None, pageNo := 0, pinCnt := 0, dirty := False, valid := False,
       refbit := False\<rparr>"

definition BufDesc_Set :: "File \<Rightarrow> PageId \<Rightarrow> BufDesc \<Rightarrow> BufDesc" where
  "BufDesc_Set f p d =
     d\<lparr>fileP := Some f, pageNo := p, pinCnt := 1, dirty := False, valid := True\<rparr>"

subsection \<open>The page identity index\<close>

text \<open>
  Modelled from the spec: the class \<open>BufHashTbl\<close> is not under src/. The spec (section 6)
  gives \<open>insert(file, pageNumber, frameIndex)\<close>; \<open>lookup(file, pageNumber)\<close>, which fails
  with a distinct not-found condition when the key is absent; and \<open>remove(file, pageNumber)\<close>,
  which here fails with the same condition when the key is absent. Keys are unique: the
  table is an association list read through \<open>map_of\<close>, and \<open>insert\<close> on a key that is
  present replaces its frame (the spec names no failure of \<open>insert\<close>).
\<close>

type_synonym BufHashTbl = "((File option \<times> PageId) \<times> FrameId) list"

definition hash_insert :: "File option \<Rightarrow> PageId \<Rightarrow> FrameId \<Rightarrow> BufHashTbl \<Rightarrow> BufHashTbl" where
  "hash_insert f p i t = AList.update (f, p) i t"

definition hash_lookup :: "File option \<Rightarrow> PageId \<Rightarrow> BufHashTbl \<Rightarrow> error + FrameId" where
  "hash_lookup f p t = (case map_of t (f, p) of None \<Rightarrow> Inl HashNotFound | Some i \<Rightarrow> Inr i)"

definition hash_remove :: "File option \<Rightarrow> PageId \<Rightarrow> BufHashTbl \<Rightarrow> error + BufHashTbl" where
  "hash_remove f p t =
     (case map_of t (f, p) of
        None \<Rightarrow> Inl HashNotFound
      | Some i \<Rightarrow> Inr (AList.delete (f, p) t))"

subsection \<open>The manager\<close>

record BufMgr =
  numBufs :: nat
  bufDescTable :: "BufDesc list"
  bufPool :: "Page list"
  hashTable :: BufHashTbl
  clockHand :: FrameId
  files :: Disk

text \<open>
  The constructor (lines 19-32) sets \<open>frameNo = i\<close> and \<open>valid = false\<close> in every
  descriptor, leaves the index empty and puts the hand on \<open>bufs - 1\<close> in 32-bit unsigned
  arithmetic. Modelled from the spec: the other fields of a new descriptor are set by the
  constructor of \<open>BufDesc\<close> in buffer.h, which is not under src/; they are the empty
  state (section 3: a frame that is not valid has pin count 0 and is not dirty).
\<close>

definition BufMgr_init :: "nat \<Rightarrow> Disk \<Rightarrow> BufMgr" where
  "BufMgr_init bufs fs =
     \<lparr>numBufs = bufs,
      bufDescTable =
        map (\<lambda>i. \<lparr>fileP = None, pageNo = 0, frameNo = i, pinCnt = 0, dirty = False,
                  valid = False, refbit = False\<rparr>) [0..<bufs],
      bufPool = replicate bufs \<lparr>page_number = 0, contents = 0\<rparr>,
      hashTable = [],
      clockHand = (if bufs = 0 then 2 ^ 32 - 1 else bufs - 1),
      files = fs\<rparr>"

definition advanceClock :: "BufMgr \<Rightarrow> BufMgr" where
  "advanceClock st = st\<lparr>clockHand := ((clockHand st + 1) mod 2 ^ 32) mod numBufs st\<rparr>"

text \<open>
  Lines 78-84 of \<open>allocBuf\<close>: the frame \<open>h\<close> under the hand is valid, its reference bit is
  clear and it is not pinned. A dirty page is written to the descriptor's file (a null file
  there is the error \<open>NullFile\<close>), the index entry is removed and the descriptor cleared.
\<close>

definition evict :: "FrameId \<Rightarrow> BufMgr \<Rightarrow> BufMgr \<times> (error + FrameId)" where
  "evict h st =
     (let d = bufDescTable st ! h
      in case (if dirty d
               then (case fileP d of
                       None \<Rightarrow> Inl NullFile
                     | Some f \<Rightarrow> Inr (st\<lparr>files := file_writePage f (bufPool st ! h) (files st)\<rparr>))
               else Inr st) of
           Inl e \<Rightarrow> (st, Inl e)
         | Inr st1 \<Rightarrow>
             (case hash_remove (fileP d) (pageNo d) (hashTable st1) of
                Inl e \<Rightarrow> (st1, Inl e)
              | Inr t \<Rightarrow>
                  (st1\<lparr>hashTable := t,
                       bufDescTable := (bufDescTable st1)[h := BufDesc_Clear d]\<rparr>, Inr h)))"

text \<open>
  The scan loop of \<open>allocBuf\<close> (lines 65-89); the first argument is the number of
  iterations left. \<open>allocBuf\<close> runs it \<open>numBufs + 1\<close> times (\<open>i = 0, ..., numBufs\<close>).
\<close>

fun allocBuf_loop :: "nat \<Rightarrow> BufMgr \<Rightarrow> BufMgr \<times> (error + FrameId)" where
  "allocBuf_loop 0 st = (st, Inl BufferExceeded)"
| "allocBuf_loop (Suc k) st =
     (let st1 = advanceClock st;
          h = clockHand st1;
          d = bufDescTable st1 ! h
      in if \<not> valid d then (st1, Inr h)
         else if refbit d
           then allocBuf_loop k (st1\<lparr>bufDescTable := (bufDescTable st1)[h := d\<lparr>refbit := False\<rparr>]\<rparr>)
         else if pinCnt d > 0 then allocBuf_loop k st1
         else evict h st1)"

definition allocBuf :: "BufMgr \<Rightarrow> BufMgr \<times> (error + FrameId)" where
  "allocBuf st = allocBuf_loop (numBufs st + 1) st"

text \<open>
  \<open>readPage\<close> (lines 103-118), the spec's fetchPage. The result is the frame whose buffer
  the returned pointer addresses.
\<close>

definition readPage :: "File \<Rightarrow> PageId \<Rightarrow> BufMgr \<Rightarrow> BufMgr \<times> (error + FrameId)" where
  "readPage f p st =
     (case hash_lookup (Some f) p (hashTable st) of
        Inr i \<Rightarrow>
          (let d = bufDescTable st ! i
           in (st\<lparr>bufDescTable := (bufDescTable st)[i := d\<lparr>pinCnt := pinCnt d + 1, refbit := True\<rparr>]\<rparr>,
               Inr i))
      | Inl _ \<Rightarrow>
          (case allocBuf st of
             (st1, Inl e) \<Rightarrow> (st1, Inl e)
           | (st1, Inr i) \<Rightarrow>
               (case file_readPage f p (files st1) of
                  (fs, Inl e) \<Rightarrow> (st1\<lparr>files := fs\<rparr>, Inl e)
                | (fs, Inr pg) \<Rightarrow>
                    (st1\<lparr>files := fs,
                         bufPool := (bufPool st1)[i := pg],
                         hashTable := hash_insert (Some f) p i (hashTable st1),
                         bufDescTable :=
                           (bufDescTable st1)[i := (BufDesc_Set f p (bufDescTable st1 ! i))\<lparr>refbit := True\<rparr>]\<rparr>,
                     Inr i))))"

text \<open>\<open>unPinPage\<close> (lines 130-144). Line 138 sets the dirty flag whatever the argument.\<close>

definition unPinPage :: "File \<Rightarrow> PageId \<Rightarrow> bool \<Rightarrow> BufMgr \<Rightarrow> BufMgr \<times> (error + unit)" where
  "unPinPage f p dirtyArg st =
     (case hash_lookup (Some f) p (hashTable st) of
        Inl _ \<Rightarrow> (st, Inr ())
      | Inr i \<Rightarrow>
          (let d = bufDescTable st ! i
           in if pinCnt d = 0 then (st, Inl (PageNotPinned f p i))
              else (st\<lparr>bufDescTable := (bufDescTable st)[i := d\<lparr>dirty := True, pinCnt := pinCnt d - 1\<rparr>]\<rparr>,
                    Inr ())))"

text \<open>
  \<open>flushFile\<close> (lines 154-171): the loop over the frames \<open>0, ..., numBufs - 1\<close> is a
  recursion over the list of the frames still to visit.
\<close>

fun flushFile_loop :: "FrameId list \<Rightarrow> File \<Rightarrow> BufMgr \<Rightarrow> BufMgr \<times> (error + unit)" where
  "flushFile_loop [] f st = (st, Inr ())"
| "flushFile_loop (i # rest) f st =
     (let d = bufDescTable st ! i
      in if fileP d = Some f
         then if pinCnt d > 0 then (st, Inl (PagePinned f (pageNo d) i))
              else
                (let st1 = (if dirty d
                            then st\<lparr>files := file_writePage f (bufPool st ! i) (files st),
                                    bufDescTable := (bufDescTable st)[i := d\<lparr>dirty := False\<rparr>]\<rparr>
                            else st)
                 in case hash_remove (Some f) (pageNo (bufDescTable st1 ! i)) (hashTable st1) of
                      Inl e \<Rightarrow> (st1, Inl e)
                    | Inr t \<Rightarrow>
                        flushFile_loop rest f
                          (st1\<lparr>hashTable := t,
                               bufDescTable := (bufDescTable st1)[i := BufDesc_Clear (bufDescTable st1 ! i)]\<rparr>))
         else flushFile_loop rest f st)"

definition flushFile :: "File \<Rightarrow> BufMgr \<Rightarrow> BufMgr \<times> (error + unit)" where
  "flushFile f st = flushFile_loop [0..<numBufs st] f st"

text \<open>\<open>allocPage\<close> (lines 173-184). The result is the new page number and the frame.\<close>

definition allocPage :: "File \<Rightarrow> BufMgr \<Rightarrow> BufMgr \<times> (error + PageId \<times> FrameId)" where
  "allocPage f st =
     (case file_allocatePage f (files st) of
        (fs, newPage) \<Rightarrow>
          (let newPageId = page_number newPage
           in case allocBuf (st\<lparr>files := fs\<rparr>) of
                (st1, Inl e) \<Rightarrow> (st1, Inl e)
              | (st1, Inr i) \<Rightarrow>
                  (let st2 = st1\<lparr>hashTable := hash_insert (Some f) newPageId i (hashTable st1)\<rparr>
                   in case file_readPage f newPageId (files st2) of
                        (fs2, Inl e) \<Rightarrow> (st2\<lparr>files := fs2\<rparr>, Inl e)
                      | (fs2, Inr pg) \<Rightarrow>
                          (st2\<lparr>files := fs2,
                               bufPool := (bufPool st2)[i := pg],
                               bufDescTable :=
                                 (bufDescTable st2)[i := BufDesc_Set f newPageId (bufDescTable st2 ! i)]\<rparr>,
                           Inr (newPageId, i)))))"

text \<open>
  \<open>disposePage\<close> (lines 193-205). The handler of the not-found condition is empty, so both
  paths go on to \<open>deletePage\<close>.
\<close>

definition disposePage :: "File \<Rightarrow> PageId \<Rightarrow> BufMgr \<Rightarrow> BufMgr \<times> (error + unit)" where
  "disposePage f p st =
     (let st1 =
        (case hash_lookup (Some f) p (hashTable st) of
           Inl _ \<Rightarrow> st
         | Inr i \<Rightarrow>
             (let st2 = st\<lparr>bufDescTable := (bufDescTable st)[i := BufDesc_Clear (bufDescTable st ! i)]\<rparr>
              in case hash_remove (Some f) p (hashTable st2) of
                   Inl _ \<Rightarrow> st2
                 | Inr t \<Rightarrow> st2\<lparr>hashTable := t\<rparr>))
      in (st1\<lparr>files := file_deletePage f p (files st1)\<rparr>, Inr ()))"

subsection \<open>Sequences of public operations\<close>

datatype operation =
    Fetch File PageId
  | Unpin File PageId bool
  | Alloc File
  | Dispose File PageId
  | Flush File

text \<open>The state a public operation leaves behind, whether it returns or throws.\<close>

fun step :: "BufMgr \<Rightarrow> operation \<Rightarrow> BufMgr" where
  "step st (Fetch f p) = fst (readPage f p st)"
| "step st (Unpin f p b) = fst (unPinPage f p b st)"
| "step st (Alloc f) = fst (allocPage f st)"
| "step st (Dispose f p) = fst (disposePage f p st)"
| "step st (Flush f) = fst (flushFile f st)"

definition run :: "operation list \<Rightarrow> BufMgr \<Rightarrow> BufMgr" where
  "run ops st = foldl step st ops"

subsection \<open>The state invariant\<close>

abbreviation D :: "BufMgr \<Rightarrow> FrameId \<Rightarrow> BufDesc" where
  "D st i \<equiv> bufDescTable st ! i"

abbreviation idx :: "BufMgr \<Rightarrow> File option \<times> PageId \<Rightarrow> FrameId option" where
  "idx st \<equiv> map_of (hashTable st)"

text \<open>
  The invariant of the spec (section 3): an invalid frame has pin count 0 and is not dirty;
  every entry of the index names a valid frame that carries the entry's (file, page number);
  every valid frame is the frame the index maps its (file, page number) to.
\<close>

definition state_inv :: "BufMgr \<Rightarrow> bool" where
  "state_inv st \<longleftrightarrow>
     (\<forall>i<numBufs st. \<not> valid (D st i) \<longrightarrow> pinCnt (D st i) = 0 \<and> \<not> dirty (D st i)) \<and>
     (\<forall>k \<in> fst ` set (hashTable st).
        \<exists>i<numBufs st. idx st k = Some i \<and> valid (D st i) \<and>
          fileP (D st i) = fst k \<and> pageNo (D st i) = snd k) \<and>
     (\<forall>i<numBufs st. valid (D st i) \<longrightarrow> idx st (fileP (D st i), pageNo (D st i)) = Some i)"

text \<open>
  What else holds in every state the constructor and the public operations reach: the pool
  has between 1 and \<open>2^32 - 2\<close> frames, both arrays have that length and the hand is inside
  them; a valid frame has a file, its page exists in that file and its buffer carries the
  descriptor's page number; an invalid frame has no file; and a file never hands out the
  number of a page it stores.
\<close>

definition sizes_ok :: "BufMgr \<Rightarrow> bool" where
  "sizes_ok st \<longleftrightarrow>
     0 < numBufs st \<and> numBufs st < 2 ^ 32 - 1 \<and>
     length (bufDescTable st) = numBufs st \<and> length (bufPool st) = numBufs st \<and>
     clockHand st < numBufs st"

definition frames_backed :: "BufMgr \<Rightarrow> bool" where
  "frames_backed st \<longleftrightarrow>
     (\<forall>i<numBufs st.
        if valid (D st i)
        then (case fileP (D st i) of
                None \<Rightarrow> False
              | Some f \<Rightarrow> (f, pageNo (D st i)) \<in> fst ` set (stored (files st))) \<and>
             page_number (bufPool st ! i) = pageNo (D st i)
        else fileP (D st i) = None)"

definition disk_fresh :: "Disk \<Rightarrow> bool" where
  "disk_fresh fs \<longleftrightarrow> (\<forall>k \<in> fst ` set (stored fs). snd k < fresh fs (fst k))"

definition wf_mgr :: "BufMgr \<Rightarrow> bool" where
  "wf_mgr st \<longleftrightarrow> sizes_ok st \<and> state_inv st \<and> frames_backed st \<and> disk_fresh (files st)"

subsection \<open>Example states\<close>

text \<open>
  File 7 stores the pages 1 to 4. \<open>pinned3\<close> is a pool of three frames after
  \<open>readPage\<close> of the pages 1, 2 and 3 of file 7: every frame is pinned once and has its
  reference bit set, and the hand is on frame 2. \<open>unpinned3\<close> is the same pool after one
  \<open>unPinPage\<close> of each of the three pages.
\<close>

definition disk0 :: Disk where
  "disk0 =
     \<lparr>stored = [((7, 1), 11), ((7, 2), 12), ((7, 3), 13), ((7, 4), 14)],
      fresh = (\<lambda>f. if f = 7 then 5 else 1),
      trace = []\<rparr>"

definition desc :: "PageId \<Rightarrow> FrameId \<Rightarrow> nat \<Rightarrow> bool \<Rightarrow> bool \<Rightarrow> BufDesc" where
  "desc p i n dty r =
     \<lparr>fileP = Some 7, pageNo = p, frameNo = i, pinCnt = n, dirty = dty, valid = True,
      refbit = r\<rparr>"

definition empty_desc :: "FrameId \<Rightarrow> BufDesc" where
  "empty_desc i =
     \<lparr>fileP = None, pageNo = 0, frameNo = i, pinCnt = 0, dirty = False, valid = False,
      refbit = False\<rparr>"

definition pinned3 :: BufMgr where
  "pinned3 =
     \<lparr>numBufs = 3,
      bufDescTable = [desc 1 0 1 False True, desc 2 1 1 False True, desc 3 2 1 False True],
      bufPool = [\<lparr>page_number = 1, contents = 11\<rparr>, \<lparr>page_number = 2, contents = 12\<rparr>,
                 \<lparr>page_number = 3, contents = 13\<rparr>],
      hashTable = [((Some 7, 1), 0), ((Some 7, 2), 1), ((Some 7, 3), 2)],
      clockHand = 2,
      files = disk0\<lparr>trace := [IoRead 7 1, IoRead 7 2, IoRead 7 3]\<rparr>\<rparr>"

definition unpinned3 :: BufMgr where
  "unpinned3 =
     pinned3\<lparr>bufDescTable := [desc 1 0 0 True True, desc 2 1 0 True True, desc 3 2 0 True True]\<rparr>"

text \<open>
  \<open>two_frames\<close> is a pool of two frames after \<open>readPage\<close> of the pages 1 and 2 of file 7
  and \<open>unPinPage\<close> of page 2: frame 0 is pinned, frame 1 is not, both reference bits are
  set and the hand is on frame 1.
\<close>

definition two_frames :: BufMgr where
  "two_frames =
     \<lparr>numBufs = 2,
      bufDescTable = [desc 1 0 1 False True, desc 2 1 0 True True],
      bufPool = [\<lparr>page_number = 1, contents = 11\<rparr>, \<lparr>page_number = 2, contents = 12\<rparr>],
      hashTable = [((Some 7, 1), 0), ((Some 7, 2), 1)],
      clockHand = 1,
      files = disk0\<lparr>trace := [IoRead 7 1, IoRead 7 2]\<rparr>\<rparr>"

text \<open>
  \<open>mixed3\<close> is \<open>pinned3\<close> after \<open>unPinPage\<close> of page 1: frame 0 is unpinned and dirty,
  the frames 1 and 2 are still pinned.
\<close>

definition mixed3 :: BufMgr where
  "mixed3 =
     pinned3\<lparr>bufDescTable := [desc 1 0 0 True True, desc 2 1 1 False True, desc 3 2 1 False True]\<rparr>"

subsection \<open>Notions used to state what flushFile does\<close>

text \<open>
  \<open>flushed_frame f i st\<close> is the state after \<open>flushFile\<close> has dealt with the unpinned frame
  \<open>i\<close> of file \<open>f\<close> (lines 162-168); \<open>frames_of f st k m\<close> are the frames among
  \<open>k, ..., m - 1\<close> whose descriptor names \<open>f\<close>; \<open>flush_result f k m st st'\<close> relates the
  states before and after the loop has dealt with the frames \<open>k, ..., m - 1\<close>.
\<close>

definition flushed_frame :: "File \<Rightarrow> FrameId \<Rightarrow> BufMgr \<Rightarrow> BufMgr" where
  "flushed_frame f i st =
     st\<lparr>files := (if dirty (D st i) then file_writePage f (bufPool st ! i) (files st) else files st),
        hashTable := AList.delete (Some f, pageNo (D st i)) (hashTable st),
        bufDescTable := (bufDescTable st)[i := BufDesc_Clear (D st i)]\<rparr>"

definition file_dirty :: "File \<Rightarrow> BufMgr \<Rightarrow> FrameId \<Rightarrow> bool" where
  "file_dirty f st j \<longleftrightarrow> fileP (D st j) = Some f \<and> dirty (D st j)"

definition frames_of :: "File \<Rightarrow> BufMgr \<Rightarrow> nat \<Rightarrow> nat \<Rightarrow> FrameId set" where
  "frames_of f st k m = {j. k \<le> j \<and> j < m \<and> fileP (D st j) = Some f}"

definition flush_result :: "File \<Rightarrow> nat \<Rightarrow> nat \<Rightarrow> BufMgr \<Rightarrow> BufMgr \<Rightarrow> bool" where
  "flush_result f k m st st' \<longleftrightarrow>
     numBufs st' = numBufs st \<and> clockHand st' = clockHand st \<and> bufPool st' = bufPool st \<and>
     length (bufDescTable st') = length (bufDescTable st) \<and>
     (\<forall>j \<in> frames_of f st k m. pinCnt (D st j) = 0 \<and> D st' j = BufDesc_Clear (D st j)) \<and>
     (\<forall>j. j \<notin> frames_of f st k m \<longrightarrow> D st' j = D st j) \<and>
     (\<forall>key. idx st' key =
        (if key \<in> (\<lambda>j. (Some f, pageNo (D st j))) ` frames_of f st k m then None
         else idx st key)) \<and>
     files st' =
       fold (\<lambda>j. file_writePage f (bufPool st ! j)) (filter (file_dirty f st) [k..<m]) (files st)"

subsection \<open>What the allocator may change outside the descriptors\<close>

text \<open>
  \<open>only_evicts st st'\<close>: no index entry is added, no stored page disappears from the
  files, and the files hand out the same page numbers next.
\<close>

definition only_evicts :: "BufMgr \<Rightarrow> BufMgr \<Rightarrow> bool" where
  "only_evicts st st' \<longleftrightarrow>
     (\<forall>key. idx st key = None \<longrightarrow> idx st' key = None) \<and>
     (\<forall>key c. map_of (stored (files st)) key = Some c \<longrightarrow>
        (\<exists>c'. map_of (stored (files st')) key = Some c')) \<and>
     fresh (files st') = fresh (files st)"

section \<open>Evaluating the model on the example states\<close>

lemma allocBuf_loop_numeral:
  "allocBuf_loop (numeral k) st =
     (let st1 = advanceClock st;
          h = clockHand st1;
          d = bufDescTable st1 ! h
      in if \<not> valid d then (st1, Inr h)
         else if refbit d
           then allocBuf_loop (pred_numeral k) (st1\<lparr>bufDescTable := (bufDescTable st1)[h := d\<lparr>refbit := False\<rparr>]\<rparr>)
         else if pinCnt d > 0 then allocBuf_loop (pred_numeral k) st1
         else evict h st1)"
  by (simp only: numeral_eq_Suc allocBuf_loop.simps)

lemma all_less_numeral:
  "(\<forall>i<numeral k. P i) \<longleftrightarrow> P (pred_numeral k) \<and> (\<forall>i<pred_numeral k. P i)"
  by (simp only: numeral_eq_Suc All_less_Suc)

lemma nth_list_update_if:
  "xs[i := x] ! j = (if i = j \<and> i < length xs then x else xs ! j)"
  by (cases "i < length xs") (auto simp add: nth_list_update list_update_beyond)

lemmas inv_defs = wf_mgr_def sizes_ok_def state_inv_def frames_backed_def disk_fresh_def

lemmas example_defs = disk0_def desc_def empty_desc_def pinned3_def unpinned3_def two_frames_def
  mixed3_def

lemmas step_defs = readPage_def unPinPage_def hash_lookup_def hash_insert_def hash_remove_def
  allocBuf_def allocBuf_loop_numeral advanceClock_def evict_def file_readPage_def
  file_writePage_def BufDesc_Set_def BufDesc_Clear_def

lemma init3: "BufMgr_init 3 disk0 =
  \<lparr>numBufs = 3, bufDescTable = [empty_desc 0, empty_desc 1, empty_desc 2],
   bufPool = [\<lparr>page_number = 0, contents = 0\<rparr>, \<lparr>page_number = 0, contents = 0\<rparr>, \<lparr>page_number = 0, contents = 0\<rparr>],
   hashTable = [], clockHand = 2, files = disk0\<rparr>"
  by (simp add: BufMgr_init_def empty_desc_def upt_rec numeral_eq_Suc)

lemma pinned3_reached: "run [Fetch 7 1, Fetch 7 2, Fetch 7 3] (BufMgr_init 3 disk0) = pinned3"
  by (simp add: run_def init3) (simp add: step_defs example_defs)


lemma wf_pinned3: "wf_mgr pinned3"
  by (simp add: inv_defs example_defs all_less_numeral)

lemma wf_unpinned3: "wf_mgr unpinned3"
  by (simp add: inv_defs example_defs all_less_numeral)

section \<open>unPinPage\<close>

text \<open>
  C6: \<open>unPinPage\<close> on a page the index does not hold returns without an error and leaves
  the whole state as it was; on a page the index holds in a frame with pin count 0 it throws
  the not-pinned exception (again leaving the state as it was); and whenever \<open>unPinPage\<close>
  throws, it is that exception in that case.
\<close>

theorem unPinPage_miss_and_not_pinned:
  "(hash_lookup (Some f) p (hashTable st) = Inl HashNotFound \<longrightarrow>
      unPinPage f p b st = (st, Inr ())) \<and>
   (\<forall>i. hash_lookup (Some f) p (hashTable st) = Inr i \<and> pinCnt (D st i) = 0 \<longrightarrow>
      unPinPage f p b st = (st, Inl (PageNotPinned f p i))) \<and>
   (\<forall>e. snd (unPinPage f p b st) = Inl e \<longrightarrow>
      (\<exists>i. hash_lookup (Some f) p (hashTable st) = Inr i \<and> pinCnt (D st i) = 0 \<and>
         e = PageNotPinned f p i))"
  by (auto simp add: unPinPage_def hash_lookup_def Let_def split: option.splits)

theorem unPinPage_miss_and_not_pinned_witness:
  "unPinPage 7 9 True unpinned3 = (unpinned3, Inr ()) \<and>
   unPinPage 7 1 True unpinned3 = (unpinned3, Inl (PageNotPinned 7 1 0)) \<and>
   hash_lookup (Some 7) 1 (hashTable unpinned3) = Inr 0 \<and> pinCnt (D unpinned3 0) = 0"
proof -
  have miss: "hash_lookup (Some 7) 9 (hashTable unpinned3) = Inl HashNotFound"
    by (simp add: hash_lookup_def example_defs)
  have hit: "hash_lookup (Some 7) 1 (hashTable unpinned3) = Inr 0 \<and> pinCnt (D unpinned3 0) = 0"
    by (simp add: hash_lookup_def example_defs)
  from miss hit show ?thesis
    using unPinPage_miss_and_not_pinned [of 7 9 unpinned3 True]
      unPinPage_miss_and_not_pinned [of 7 1 unpinned3 True]
    by blast
qed

text \<open>
  C10: \<open>unPinPage\<close> never evicts. Whatever it returns, the index, the hand, the buffers and
  the files are untouched; every descriptor keeps all its fields except possibly \<open>pinCnt\<close>
  and \<open>dirty\<close>, and a descriptor other than the hit frame's keeps those too. When the pin
  count goes from 1 to 0 the frame stays valid with the same identity and the index still
  maps the page to it.
\<close>

theorem unPinPage_only_pin_and_dirty:
  assumes "unPinPage f p b st = (st', r)"
  shows "numBufs st' = numBufs st \<and> hashTable st' = hashTable st \<and>
         clockHand st' = clockHand st \<and> bufPool st' = bufPool st \<and> files st' = files st \<and>
         length (bufDescTable st') = length (bufDescTable st) \<and>
         (\<forall>j<length (bufDescTable st).
            D st' j = (D st j)\<lparr>pinCnt := pinCnt (D st' j), dirty := dirty (D st' j)\<rparr> \<and>
            (hash_lookup (Some f) p (hashTable st) \<noteq> Inr j \<longrightarrow> D st' j = D st j) \<and>
            (hash_lookup (Some f) p (hashTable st) = Inr j \<and> pinCnt (D st j) = 1 \<longrightarrow>
               pinCnt (D st' j) = 0 \<and> valid (D st' j) = valid (D st j) \<and>
               fileP (D st' j) = fileP (D st j) \<and> pageNo (D st' j) = pageNo (D st j) \<and>
               hash_lookup (Some f) p (hashTable st') = Inr j))"
proof (cases "hash_lookup (Some f) p (hashTable st)")
  case (Inl e)
  with assms have "st' = st" by (simp add: unPinPage_def)
  with Inl show ?thesis by simp
next
  case (Inr i)
  show ?thesis
  proof (cases "pinCnt (D st i) = 0")
    case True
    with Inr assms have "st' = st" by (simp add: unPinPage_def)
    with Inr True show ?thesis by simp
  next
    case False
    with Inr assms
    have st': "st' = st\<lparr>bufDescTable := (bufDescTable st)[i := (D st i)\<lparr>dirty := True, pinCnt := pinCnt (D st i) - 1\<rparr>]\<rparr>"
      by (simp add: unPinPage_def Let_def)
    show ?thesis using Inr by (auto simp add: st' nth_list_update_if)
  qed
qed

theorem unPinPage_only_pin_and_dirty_witness:
  "\<exists>st'. unPinPage 7 1 False pinned3 = (st', Inr ()) \<and>
     hashTable st' = hashTable pinned3 \<and> clockHand st' = 2 \<and> bufPool st' = bufPool pinned3 \<and>
     files st' = files pinned3 \<and> pinCnt (D st' 0) = 0 \<and> valid (D st' 0) \<and>
     fileP (D st' 0) = Some 7 \<and> pageNo (D st' 0) = 1 \<and> D st' 1 = D pinned3 1 \<and> D st' 2 = D pinned3 2"
proof -
  obtain st' where run: "unPinPage 7 1 False pinned3 = (st', Inr ())"
    by (simp add: unPinPage_def hash_lookup_def example_defs)
  have pre: "hash_lookup (Some 7) 1 (hashTable pinned3) = Inr 0" "pinCnt (D pinned3 0) = 1"
    "length (bufDescTable pinned3) = 3" "clockHand pinned3 = 2" "valid (D pinned3 0)"
    "fileP (D pinned3 0) = Some 7" "pageNo (D pinned3 0) = 1"
    by (simp_all add: hash_lookup_def example_defs)
  from unPinPage_only_pin_and_dirty [OF run] pre
  have "hashTable st' = hashTable pinned3 \<and> clockHand st' = 2 \<and> bufPool st' = bufPool pinned3 \<and>
     files st' = files pinned3 \<and> pinCnt (D st' 0) = 0 \<and> valid (D st' 0) \<and>
     fileP (D st' 0) = Some 7 \<and> pageNo (D st' 0) = 1 \<and> D st' 1 = D pinned3 1 \<and> D st' 2 = D pinned3 2"
    by (simp add: all_less_numeral)
  with run show ?thesis by blast
qed

lemma unPinPage_decrements_and_dirties:
  assumes "hash_lookup (Some f) p (hashTable st) = Inr i" and "0 < pinCnt (D st i)"
    and "i < length (bufDescTable st)"
  shows "\<exists>st'. unPinPage f p b st = (st', Inr ()) \<and>
           pinCnt (D st' i) = pinCnt (D st i) - 1 \<and> dirty (D st' i)"
  using assms by (simp add: unPinPage_def Let_def)

text \<open>
  C1: the claim is that \<open>unPinPage\<close> sets the dirty flag if and only if its \<open>dirty\<close>
  argument is true. It does decrement the pin count of a pinned resident page, but line 138
  sets the flag unconditionally: in \<open>pinned3\<close> page 1 of file 7 is resident in frame 0,
  pinned once and clean, and \<open>unPinPage\<close> with \<open>dirty = false\<close> leaves the frame dirty.
\<close>

theorem unPinPage_clean_unpin_sets_dirty:
  "hash_lookup (Some 7) 1 (hashTable pinned3) = Inr 0 \<and>
   pinCnt (D pinned3 0) = 1 \<and> \<not> dirty (D pinned3 0) \<and>
   snd (unPinPage 7 1 False pinned3) = Inr () \<and>
   pinCnt (D (fst (unPinPage 7 1 False pinned3)) 0) = 0 \<and>
   dirty (D (fst (unPinPage 7 1 False pinned3)) 0)"
  by (simp add: unPinPage_def hash_lookup_def example_defs)

section \<open>The allocator keeps the shape of the pool\<close>

lemma evict_shape:
  assumes "evict h st = (st', r)"
  shows "numBufs st' = numBufs st \<and> length (bufDescTable st') = length (bufDescTable st) \<and>
         bufPool st' = bufPool st \<and> clockHand st' = clockHand st \<and>
         (\<forall>i. r = Inr i \<longrightarrow> i = h)"
  using assms
  by (auto simp add: evict_def Let_def split: if_splits option.splits sum.splits)

lemma allocBuf_loop_shape:
  assumes "allocBuf_loop k st = (st', r)" and "0 < numBufs st"
  shows "numBufs st' = numBufs st \<and> length (bufDescTable st') = length (bufDescTable st) \<and>
         bufPool st' = bufPool st \<and> (\<forall>i. r = Inr i \<longrightarrow> i = clockHand st' \<and> i < numBufs st)"
  using assms
proof (induction k arbitrary: st)
  case 0
  then show ?case by auto
next
  case (Suc k)
  let ?st1 = "advanceClock st"
  let ?h = "clockHand ?st1"
  have h: "?h < numBufs st" and n1: "numBufs ?st1 = numBufs st"
    and l1: "bufDescTable ?st1 = bufDescTable st" and p1: "bufPool ?st1 = bufPool st"
    using Suc.prems(2) by (simp_all add: advanceClock_def)
  consider (empty) "\<not> valid (D ?st1 ?h)"
    | (ref) "valid (D ?st1 ?h)" "refbit (D ?st1 ?h)"
    | (pinned) "valid (D ?st1 ?h)" "\<not> refbit (D ?st1 ?h)" "pinCnt (D ?st1 ?h) > 0"
    | (victim) "valid (D ?st1 ?h)" "\<not> refbit (D ?st1 ?h)" "pinCnt (D ?st1 ?h) = 0"
    by blast
  then show ?case
  proof cases
    case empty
    with Suc.prems(1) have "st' = ?st1" "r = Inr ?h" by (auto simp add: Let_def)
    with h n1 l1 p1 show ?thesis by simp
  next
    case ref
    let ?st2 = "?st1\<lparr>bufDescTable := (bufDescTable ?st1)[?h := (D ?st1 ?h)\<lparr>refbit := False\<rparr>]\<rparr>"
    from ref Suc.prems(1) have "allocBuf_loop k ?st2 = (st', r)" by (simp add: Let_def)
    from Suc.IH [OF this] n1 l1 p1 Suc.prems(2) show ?thesis by simp
  next
    case pinned
    with Suc.prems(1) have "allocBuf_loop k ?st1 = (st', r)" by (simp add: Let_def)
    from Suc.IH [OF this] n1 l1 p1 Suc.prems(2) show ?thesis by simp
  next
    case victim
    with Suc.prems(1) have "evict ?h ?st1 = (st', r)" by (simp add: Let_def)
    from evict_shape [OF this] h n1 l1 p1 show ?thesis by auto
  qed
qed

lemma allocBuf_shape:
  assumes "allocBuf st = (st', r)" and "0 < numBufs st"
  shows "numBufs st' = numBufs st \<and> length (bufDescTable st') = length (bufDescTable st) \<and>
         bufPool st' = bufPool st \<and> (\<forall>i. r = Inr i \<longrightarrow> i = clockHand st' \<and> i < numBufs st)"
  using assms allocBuf_loop_shape unfolding allocBuf_def by blast

section \<open>readPage\<close>

lemma readPage_hit:
  assumes "hash_lookup (Some f) p (hashTable st) = Inr i"
  shows "readPage f p st =
           (st\<lparr>bufDescTable := (bufDescTable st)[i := (D st i)\<lparr>pinCnt := pinCnt (D st i) + 1, refbit := True\<rparr>]\<rparr>, Inr i)"
  using assms by (simp add: readPage_def Let_def)

lemma readPage_miss_success:
  assumes miss: "hash_lookup (Some f) p (hashTable st) = Inl HashNotFound"
    and run: "readPage f p st = (st1, Inr i)"
    and sizes: "0 < numBufs st" "length (bufDescTable st) = numBufs st"
  shows "hash_lookup (Some f) p (hashTable st1) = Inr i \<and> i < length (bufDescTable st1) \<and>
         pinCnt (D st1 i) = 1"
proof -
  obtain sa ra where a: "allocBuf st = (sa, ra)" by (cases "allocBuf st")
  obtain fs rr where rd: "file_readPage f p (files sa) = (fs, rr)" by (cases "file_readPage f p (files sa)")
  from miss run a have ra: "ra = Inr i"
    by (auto simp add: readPage_def rd split: sum.splits)
  from miss run a rd ra obtain pg where rr: "rr = Inr pg"
    by (cases rr) (auto simp add: readPage_def)
  from allocBuf_shape [OF a sizes(1)] ra sizes(2)
  have i: "i < length (bufDescTable sa)" by simp
  from miss run a rd ra rr
  have st1: "st1 = sa\<lparr>files := fs, bufPool := (bufPool sa)[i := pg],
                       hashTable := hash_insert (Some f) p i (hashTable sa),
                       bufDescTable := (bufDescTable sa)[i := (BufDesc_Set f p (D sa i))\<lparr>refbit := True\<rparr>]\<rparr>"
    by (simp add: readPage_def)
  show ?thesis using i
    by (simp add: st1 hash_lookup_def hash_insert_def update_conv' BufDesc_Set_def)
qed

text \<open>
  C9: on an index hit \<open>readPage\<close> returns the hit frame, with its pin count one higher and
  its reference bit set; no other descriptor, the hand (so the allocator did not run), the
  index, the buffers and the files (so no page was read or written) change. When a page
  that was not resident is fetched successfully and then fetched again, the second fetch
  returns the same frame and leaves its pin count at 2.
\<close>

theorem readPage_hit_pins_without_io:
  "(\<forall>i. hash_lookup (Some f) p (hashTable st) = Inr i \<and> i < length (bufDescTable st) \<longrightarrow>
      (\<exists>st'. readPage f p st = (st', Inr i) \<and>
         pinCnt (D st' i) = pinCnt (D st i) + 1 \<and> refbit (D st' i) \<and>
         D st' i = (D st i)\<lparr>pinCnt := pinCnt (D st i) + 1, refbit := True\<rparr> \<and>
         (\<forall>j. j \<noteq> i \<longrightarrow> D st' j = D st j) \<and>
         files st' = files st \<and> clockHand st' = clockHand st \<and>
         hashTable st' = hashTable st \<and> bufPool st' = bufPool st)) \<and>
   (\<forall>st1 i. hash_lookup (Some f) p (hashTable st) = Inl HashNotFound \<and>
      0 < numBufs st \<and> length (bufDescTable st) = numBufs st \<and>
      readPage f p st = (st1, Inr i) \<longrightarrow>
      (\<exists>st2. readPage f p st1 = (st2, Inr i) \<and> pinCnt (D st2 i) = 2 \<and>
         files st2 = files st1 \<and> clockHand st2 = clockHand st1))"
proof (intro conjI allI impI)
  fix i
  assume "hash_lookup (Some f) p (hashTable st) = Inr i \<and> i < length (bufDescTable st)"
  then show "\<exists>st'. readPage f p st = (st', Inr i) \<and>
         pinCnt (D st' i) = pinCnt (D st i) + 1 \<and> refbit (D st' i) \<and>
         D st' i = (D st i)\<lparr>pinCnt := pinCnt (D st i) + 1, refbit := True\<rparr> \<and>
         (\<forall>j. j \<noteq> i \<longrightarrow> D st' j = D st j) \<and>
         files st' = files st \<and> clockHand st' = clockHand st \<and>
         hashTable st' = hashTable st \<and> bufPool st' = bufPool st"
    by (simp add: readPage_hit)
next
  fix st1 i
  assume a: "hash_lookup (Some f) p (hashTable st) = Inl HashNotFound \<and>
      0 < numBufs st \<and> length (bufDescTable st) = numBufs st \<and>
      readPage f p st = (st1, Inr i)"
  then have "hash_lookup (Some f) p (hashTable st1) = Inr i \<and> i < length (bufDescTable st1) \<and>
         pinCnt (D st1 i) = 1"
    by (intro readPage_miss_success [of f p st]) simp_all
  then show "\<exists>st2. readPage f p st1 = (st2, Inr i) \<and> pinCnt (D st2 i) = 2 \<and>
         files st2 = files st1 \<and> clockHand st2 = clockHand st1"
    by (simp add: readPage_hit)
qed


theorem readPage_hit_pins_without_io_witness:
  "(\<exists>st'. readPage 7 1 pinned3 = (st', Inr 0) \<and> pinCnt (D st' 0) = 2 \<and> refbit (D st' 0) \<and>
      files st' = files pinned3 \<and> clockHand st' = clockHand pinned3) \<and>
   (\<exists>st1 st2. readPage 7 1 (BufMgr_init 3 disk0) = (st1, Inr 0) \<and>
      readPage 7 1 st1 = (st2, Inr 0) \<and> pinCnt (D st2 0) = 2 \<and> files st2 = files st1)"
proof -
  have hit: "hash_lookup (Some 7) 1 (hashTable pinned3) = Inr 0 \<and> 0 < length (bufDescTable pinned3)"
    and pin: "pinCnt (D pinned3 0) = 1"
    by (simp_all add: hash_lookup_def example_defs)
  obtain st1 where first: "readPage 7 1 (BufMgr_init 3 disk0) = (st1, Inr 0)"
    by (simp add: init3) (simp add: step_defs example_defs)
  have miss: "hash_lookup (Some 7) 1 (hashTable (BufMgr_init 3 disk0)) = Inl HashNotFound \<and>
      0 < numBufs (BufMgr_init 3 disk0) \<and>
      length (bufDescTable (BufMgr_init 3 disk0)) = numBufs (BufMgr_init 3 disk0)"
    by (simp add: init3 hash_lookup_def)
  from readPage_hit_pins_without_io [of 7 1 pinned3] hit pin
  have "\<exists>st'. readPage 7 1 pinned3 = (st', Inr 0) \<and> pinCnt (D st' 0) = 2 \<and> refbit (D st' 0) \<and>
      files st' = files pinned3 \<and> clockHand st' = clockHand pinned3"
    by fastforce
  moreover from readPage_hit_pins_without_io [of 7 1 "BufMgr_init 3 disk0"] miss first
  have "\<exists>st2. readPage 7 1 st1 = (st2, Inr 0) \<and> pinCnt (D st2 0) = 2 \<and> files st2 = files st1"
    by blast
  ultimately show ?thesis using first by blast
qed

section \<open>disposePage\<close>

text \<open>
  C5: \<open>disposePage\<close> on a resident page, whatever its pin count and dirty flag, clears
  the frame's descriptor and removes the index entry; the only call to the file is
  \<open>deletePage\<close> (no page is written), after which the file no longer stores the page.
  On a page that is not resident it only deletes the page from the file. It never throws.
\<close>

theorem disposePage_clears_without_writeback:
  "(\<forall>i. hash_lookup (Some f) p (hashTable st) = Inr i \<and> i < length (bufDescTable st) \<longrightarrow>
      (\<exists>st'. disposePage f p st = (st', Inr ()) \<and>
         D st' i = BufDesc_Clear (D st i) \<and> (\<forall>j. j \<noteq> i \<longrightarrow> D st' j = D st j) \<and>
         idx st' = (idx st)((Some f, p) := None) \<and>
         hash_lookup (Some f) p (hashTable st') = Inl HashNotFound \<and>
         bufPool st' = bufPool st \<and> clockHand st' = clockHand st \<and>
         trace (files st') = trace (files st) @ [IoDelete f p] \<and>
         map_of (stored (files st')) = (map_of (stored (files st)))((f, p) := None))) \<and>
   (hash_lookup (Some f) p (hashTable st) = Inl HashNotFound \<longrightarrow>
      disposePage f p st = (st\<lparr>files := file_deletePage f p (files st)\<rparr>, Inr ()) \<and>
      trace (file_deletePage f p (files st)) = trace (files st) @ [IoDelete f p] \<and>
      map_of (stored (file_deletePage f p (files st))) = (map_of (stored (files st)))((f, p) := None))"
  by (auto simp add: disposePage_def hash_lookup_def hash_remove_def file_deletePage_def Let_def
      delete_conv' split: option.splits)

theorem disposePage_clears_without_writeback_witness:
  "(\<exists>st'. disposePage 7 2 pinned3 = (st', Inr ()) \<and> pinCnt (D pinned3 1) = 1 \<and>
      D st' 1 = empty_desc 1 \<and> D st' 0 = D pinned3 0 \<and> D st' 2 = D pinned3 2 \<and>
      hash_lookup (Some 7) 2 (hashTable st') = Inl HashNotFound \<and>
      trace (files st') = trace (files pinned3) @ [IoDelete 7 2]) \<and>
   disposePage 7 4 pinned3 = (pinned3\<lparr>files := file_deletePage 7 4 (files pinned3)\<rparr>, Inr ())"
proof -
  have hit: "hash_lookup (Some 7) 2 (hashTable pinned3) = Inr 1 \<and> 1 < length (bufDescTable pinned3)"
    and miss: "hash_lookup (Some 7) 4 (hashTable pinned3) = Inl HashNotFound"
    and d: "pinCnt (D pinned3 1) = 1" "BufDesc_Clear (D pinned3 1) = empty_desc 1"
    by (simp_all add: hash_lookup_def BufDesc_Clear_def example_defs)
  from disposePage_clears_without_writeback [of 7 2 pinned3] hit d
  have "\<exists>st'. disposePage 7 2 pinned3 = (st', Inr ()) \<and> pinCnt (D pinned3 1) = 1 \<and>
      D st' 1 = empty_desc 1 \<and> D st' 0 = D pinned3 0 \<and> D st' 2 = D pinned3 2 \<and>
      hash_lookup (Some 7) 2 (hashTable st') = Inl HashNotFound \<and>
      trace (files st') = trace (files pinned3) @ [IoDelete 7 2]"
    by fastforce
  moreover from disposePage_clears_without_writeback [of 7 4 pinned3] miss
  have "disposePage 7 4 pinned3 = (pinned3\<lparr>files := file_deletePage 7 4 (files pinned3)\<rparr>, Inr ())"
    by blast
  ultimately show ?thesis by blast
qed

section \<open>The clock hand\<close>




section \<open>The loop of flushFile\<close>

declare flushFile_loop.simps(2) [simp del]

lemma flushFile_loop_skip:
  assumes "fileP (D st i) \<noteq> Some f"
  shows "flushFile_loop (i # rest) f st = flushFile_loop rest f st"
  using assms by (simp add: flushFile_loop.simps Let_def)

lemma flushFile_loop_pinned:
  assumes "fileP (D st i) = Some f" and "0 < pinCnt (D st i)"
  shows "flushFile_loop (i # rest) f st = (st, Inl (PagePinned f (pageNo (D st i)) i))"
  using assms by (simp add: flushFile_loop.simps Let_def)

lemma BufDesc_Clear_dirty: "BufDesc_Clear (d\<lparr>dirty := b\<rparr>) = BufDesc_Clear d"
  by (simp add: BufDesc_Clear_def)

lemma flushFile_loop_flush:
  assumes "fileP (D st i) = Some f" and "pinCnt (D st i) = 0" and "i < length (bufDescTable st)"
    and "idx st (Some f, pageNo (D st i)) \<noteq> None"
  shows "flushFile_loop (i # rest) f st = flushFile_loop rest f (flushed_frame f i st)"
  using assms
  by (auto simp add: flushFile_loop.simps Let_def hash_remove_def flushed_frame_def BufDesc_Clear_dirty)

lemma flushFile_loop_no_entry:
  assumes "fileP (D st i) = Some f" and "pinCnt (D st i) = 0"
    and "idx st (Some f, pageNo (D st i)) = None"
  shows "snd (flushFile_loop (i # rest) f st) = Inl HashNotFound"
  using assms by (auto simp add: flushFile_loop.simps Let_def hash_remove_def nth_list_update_if)

lemma flushed_frame_fields:
  "numBufs (flushed_frame f i st) = numBufs st"
  "clockHand (flushed_frame f i st) = clockHand st"
  "bufPool (flushed_frame f i st) = bufPool st"
  "length (bufDescTable (flushed_frame f i st)) = length (bufDescTable st)"
  "j \<noteq> i \<Longrightarrow> D (flushed_frame f i st) j = D st j"
  "i < length (bufDescTable st) \<Longrightarrow> D (flushed_frame f i st) i = BufDesc_Clear (D st i)"
  "idx (flushed_frame f i st) = (idx st)((Some f, pageNo (D st i)) := None)"
  "files (flushed_frame f i st) =
     (if dirty (D st i) then file_writePage f (bufPool st ! i) (files st) else files st)"
  by (simp_all add: flushed_frame_def delete_conv')

lemma frames_of_empty: "frames_of f st k k = {}"
  by (auto simp add: frames_of_def)

lemma frames_of_skip:
  assumes "fileP (D st k) \<noteq> Some f"
  shows "frames_of f st k m = frames_of f st (Suc k) m"
  using assms unfolding frames_of_def by (metis Suc_leD Suc_leI le_neq_implies_less)

lemma frames_of_first:
  assumes "fileP (D st k) = Some f" and "Suc k \<le> m"
  shows "frames_of f st k m = insert k (frames_of f st (Suc k) m)"
  using assms unfolding frames_of_def by auto

lemma frames_of_flushed:
  "frames_of f (flushed_frame f k st) (Suc k) m = frames_of f st (Suc k) m"
  unfolding frames_of_def by (auto simp add: flushed_frame_fields)

lemma flush_result_refl: "flush_result f k k st st"
  by (simp add: flush_result_def frames_of_empty)

lemma flush_result_skip:
  assumes "flush_result f (Suc k) m st st'" and "fileP (D st k) \<noteq> Some f" and "Suc k \<le> m"
  shows "flush_result f k m st st'"
proof -
  from assms(3) have upt: "[k..<m] = k # [Suc k..<m]" by (simp add: upt_conv_Cons)
  show ?thesis
    using assms(1,2) unfolding flush_result_def upt frames_of_skip [OF assms(2)]
    by (simp add: file_dirty_def)
qed

lemma flush_result_flush:
  assumes rest: "flush_result f (Suc k) m (flushed_frame f k st) st'"
    and mine: "fileP (D st k) = Some f" "pinCnt (D st k) = 0"
    and k: "k < length (bufDescTable st)" "Suc k \<le> m"
  shows "flush_result f k m st st'"
proof -
  let ?st2 = "flushed_frame f k st"
  let ?later = "frames_of f st (Suc k) m"
  from k(2) have upt: "[k..<m] = k # [Suc k..<m]" by (simp add: upt_conv_Cons)
  have frames: "frames_of f st k m = insert k ?later"
    using mine(1) k(2) by (rule frames_of_first)
  have k_not_later: "k \<notin> ?later" by (simp add: frames_of_def)
  have other: "D ?st2 j = D st j" if "j \<noteq> k" for j
    using that by (simp add: flushed_frame_fields)
  have here: "D ?st2 k = BufDesc_Clear (D st k)"
    using k(1) by (simp add: flushed_frame_fields)
  have writes: "filter (file_dirty f ?st2) [Suc k..<m] = filter (file_dirty f st) [Suc k..<m]"
    by (rule filter_cong) (simp_all add: file_dirty_def other)
  have shape: "numBufs st' = numBufs st \<and> clockHand st' = clockHand st \<and> bufPool st' = bufPool st \<and>
     length (bufDescTable st') = length (bufDescTable st)"
    using rest by (simp add: flush_result_def flushed_frame_fields)
  have done_frames: "pinCnt (D st j) = 0 \<and> D st' j = BufDesc_Clear (D st j)"
    if j: "j \<in> frames_of f st k m" for j
  proof (cases "j = k")
    case True
    from rest k_not_later have "D st' k = D ?st2 k"
      by (simp add: flush_result_def frames_of_flushed)
    with True mine here show ?thesis by simp
  next
    case False
    with j frames have "j \<in> ?later" by simp
    with rest have "pinCnt (D ?st2 j) = 0 \<and> D st' j = BufDesc_Clear (D ?st2 j)"
      by (simp add: flush_result_def frames_of_flushed)
    with False show ?thesis by (simp add: other)
  qed
  have kept: "D st' j = D st j" if j: "j \<notin> frames_of f st k m" for j
  proof -
    from j frames have "j \<noteq> k" "j \<notin> ?later" by simp_all
    with rest have "D st' j = D ?st2 j" by (simp add: flush_result_def frames_of_flushed)
    with \<open>j \<noteq> k\<close> show ?thesis by (simp add: other)
  qed
  have index: "idx st' key =
        (if key \<in> (\<lambda>j. (Some f, pageNo (D st j))) ` frames_of f st k m then None
         else idx st key)" for key
  proof -
    have keys: "(\<lambda>j. (Some f, pageNo (D ?st2 j))) ` ?later = (\<lambda>j. (Some f, pageNo (D st j))) ` ?later"
    proof (intro image_cong refl)
      fix j assume "j \<in> ?later"
      with k_not_later have "j \<noteq> k" by auto
      then show "(Some f, pageNo (D ?st2 j)) = (Some f, pageNo (D st j))" by (simp add: other)
    qed
    from rest have "idx st' key =
        (if key \<in> (\<lambda>j. (Some f, pageNo (D ?st2 j))) ` ?later then None else idx ?st2 key)"
      unfolding flush_result_def frames_of_flushed by blast
    then show ?thesis
      unfolding keys frames by (simp add: flushed_frame_fields)
  qed
  have "files st' =
       fold (\<lambda>j. file_writePage f (bufPool ?st2 ! j)) (filter (file_dirty f ?st2) [Suc k..<m]) (files ?st2)"
    using rest by (simp add: flush_result_def)
  then have disk: "files st' =
       fold (\<lambda>j. file_writePage f (bufPool st ! j)) (filter (file_dirty f st) [k..<m]) (files st)"
    using mine(1) by (simp add: writes upt flushed_frame_fields file_dirty_def)
  show ?thesis
    unfolding flush_result_def using shape done_frames kept index disk by blast
qed

text \<open>
  The loop over the frames \<open>k, ..., n - 1\<close> stops at some frame \<open>m\<close>: at \<open>n\<close> when it
  returns, at the first pinned frame of the file when it throws the pinned-page exception.
\<close>

lemma flushFile_loop_range:
  assumes "flushFile_loop [k..<n] f st = (st', r)" and "k \<le> n" and "n \<le> length (bufDescTable st)"
    and "r \<noteq> Inl HashNotFound"
  shows "\<exists>m. k \<le> m \<and> m \<le> n \<and> flush_result f k m st st' \<and>
           (case r of
              Inr u \<Rightarrow> m = n
            | Inl e \<Rightarrow> m < n \<and> fileP (D st m) = Some f \<and> 0 < pinCnt (D st m) \<and>
                e = PagePinned f (pageNo (D st m)) m)"
  using assms
proof (induction "n - k" arbitrary: k st)
  case 0
  then have "st' = st" "r = Inr ()" "k = n" by auto
  then show ?case using flush_result_refl by auto
next
  case (Suc d)
  then have k: "k < n" and upt: "[k..<n] = k # [Suc k..<n]" and d: "d = n - Suc k"
    by (auto simp add: upt_conv_Cons)
  consider (skip) "fileP (D st k) \<noteq> Some f"
    | (pinned) "fileP (D st k) = Some f" "0 < pinCnt (D st k)"
    | (no_entry) "fileP (D st k) = Some f" "pinCnt (D st k) = 0" "idx st (Some f, pageNo (D st k)) = None"
    | (flush) "fileP (D st k) = Some f" "pinCnt (D st k) = 0" "idx st (Some f, pageNo (D st k)) \<noteq> None"
    by auto
  then show ?case
  proof cases
    case skip
    with Suc.prems(1) have "flushFile_loop [Suc k..<n] f st = (st', r)"
      by (simp add: upt flushFile_loop_skip)
    from Suc.hyps(1) [OF d this] k Suc.prems(3,4)
    obtain m where m: "Suc k \<le> m" "m \<le> n" "flush_result f (Suc k) m st st'"
      "case r of Inr u \<Rightarrow> m = n
       | Inl e \<Rightarrow> m < n \<and> fileP (D st m) = Some f \<and> 0 < pinCnt (D st m) \<and>
           e = PagePinned f (pageNo (D st m)) m"
      by auto
    from m(3) skip m(1) have "flush_result f k m st st'" by (rule flush_result_skip)
    with m show ?thesis by (intro exI [of _ m]) simp
  next
    case pinned
    with Suc.prems(1) have "st' = st" "r = Inl (PagePinned f (pageNo (D st k)) k)"
      by (auto simp add: upt flushFile_loop_pinned)
    with pinned k show ?thesis
      by (intro exI [of _ k]) (simp add: flush_result_refl)
  next
    case no_entry
    then have "snd (flushFile_loop [k..<n] f st) = Inl HashNotFound"
      unfolding upt by (rule flushFile_loop_no_entry)
    with Suc.prems(1,4) show ?thesis by simp
  next
    case flush
    let ?st2 = "flushed_frame f k st"
    from k Suc.prems(3) have len: "k < length (bufDescTable st)" by simp
    with flush Suc.prems(1) have run: "flushFile_loop [Suc k..<n] f ?st2 = (st', r)"
      by (simp add: upt flushFile_loop_flush)
    have "n \<le> length (bufDescTable ?st2)"
      using Suc.prems(3) by (simp add: flushed_frame_fields)
    from Suc.hyps(1) [OF d run _ this Suc.prems(4)] k
    obtain m where m: "Suc k \<le> m" "m \<le> n" "flush_result f (Suc k) m ?st2 st'"
      "case r of Inr u \<Rightarrow> m = n
       | Inl e \<Rightarrow> m < n \<and> fileP (D ?st2 m) = Some f \<and> 0 < pinCnt (D ?st2 m) \<and>
           e = PagePinned f (pageNo (D ?st2 m)) m"
      by auto
    from m(3) flush(1,2) len m(1) have res: "flush_result f k m st st'"
      by (rule flush_result_flush)
    from m(1) have "D ?st2 m = D st m" by (simp add: flushed_frame_fields)
    with m res show ?thesis by (intro exI [of _ m]) (simp split: sum.splits)
  qed
qed


section \<open>Consequences of the invariant\<close>

lemma in_keys_iff: "k \<in> fst ` set al \<longleftrightarrow> (\<exists>v. map_of al k = Some v)"
  by (metis map_of_eq_None_iff not_None_eq)

lemma state_inv_iff:
  "state_inv st \<longleftrightarrow>
     (\<forall>i<numBufs st. \<not> valid (D st i) \<longrightarrow> pinCnt (D st i) = 0 \<and> \<not> dirty (D st i)) \<and>
     (\<forall>k i. idx st k = Some i \<longrightarrow>
        i < numBufs st \<and> valid (D st i) \<and> fileP (D st i) = fst k \<and> pageNo (D st i) = snd k) \<and>
     (\<forall>i<numBufs st. valid (D st i) \<longrightarrow> idx st (fileP (D st i), pageNo (D st i)) = Some i)"
  unfolding state_inv_def Ball_def in_keys_iff by (intro conj_cong refl) fastforce

lemma frames_backed_iff:
  "frames_backed st \<longleftrightarrow>
     (\<forall>i<numBufs st.
        (valid (D st i) \<longrightarrow>
           (\<exists>f c. fileP (D st i) = Some f \<and> map_of (stored (files st)) (f, pageNo (D st i)) = Some c) \<and>
           page_number (bufPool st ! i) = pageNo (D st i)) \<and>
        (\<not> valid (D st i) \<longrightarrow> fileP (D st i) = None))"
  unfolding frames_backed_def in_keys_iff by (intro all_cong) (auto split: option.splits)

lemma disk_fresh_iff:
  "disk_fresh fs \<longleftrightarrow> (\<forall>f p c. map_of (stored fs) (f, p) = Some c \<longrightarrow> p < fresh fs f)"
  unfolding disk_fresh_def Ball_def in_keys_iff by auto

lemma wf_sizes:
  assumes "wf_mgr st"
  shows "0 < numBufs st" "numBufs st < 2 ^ 32 - 1" "length (bufDescTable st) = numBufs st"
    "length (bufPool st) = numBufs st" "clockHand st < numBufs st"
  using assms by (simp_all add: wf_mgr_def sizes_ok_def)

lemma wf_index_valid:
  assumes "wf_mgr st" and "idx st (a, p) = Some i"
  shows "i < numBufs st" "valid (D st i)" "fileP (D st i) = a" "pageNo (D st i) = p"
  using assms unfolding wf_mgr_def state_inv_iff by fastforce+

lemma wf_valid_index:
  assumes "wf_mgr st" and "i < numBufs st" and "valid (D st i)"
  shows "idx st (fileP (D st i), pageNo (D st i)) = Some i"
  using assms unfolding wf_mgr_def state_inv_iff by blast

lemma wf_file_valid:
  assumes "wf_mgr st" and "i < numBufs st" and "fileP (D st i) = Some f"
  shows "valid (D st i)"
  using assms unfolding wf_mgr_def frames_backed_iff by fastforce

lemma wf_buffer_number:
  assumes "wf_mgr st" and "i < numBufs st" and "valid (D st i)"
  shows "page_number (bufPool st ! i) = pageNo (D st i)"
  using assms unfolding wf_mgr_def frames_backed_iff by blast

section \<open>Pages written by a run of writePage calls\<close>

lemma trace_fold_writePage:
  "trace (fold (\<lambda>j. file_writePage f (pool ! j)) js fs) =
     trace fs @ map (\<lambda>j. IoWrite f (pool ! j)) js"
  by (induction js arbitrary: fs) (simp_all add: file_writePage_def)

lemma stored_fold_writePage:
  assumes "i \<in> set js"
    and "\<forall>j \<in> set js. page_number (pool ! j) = page_number (pool ! i) \<longrightarrow> j = i"
  shows "map_of (stored (fold (\<lambda>j. file_writePage f (pool ! j)) js fs)) (f, page_number (pool ! i)) =
           Some (contents (pool ! i))"
  using assms
proof (induction js rule: rev_induct)
  case Nil
  then show ?case by simp
next
  case (snoc x xs)
  show ?case
  proof (cases "x = i")
    case True
    then show ?thesis by (simp add: file_writePage_def update_conv')
  next
    case False
    with snoc.prems have "i \<in> set xs" and "page_number (pool ! x) \<noteq> page_number (pool ! i)"
      by auto
    with snoc show ?thesis by (simp add: file_writePage_def update_conv')
  qed
qed

section \<open>flushFile on the whole pool\<close>

lemma flushFile_range:
  assumes "flushFile f st = (st', r)" and "length (bufDescTable st) = numBufs st"
    and "r \<noteq> Inl HashNotFound"
  shows "\<exists>m\<le>numBufs st. flush_result f 0 m st st' \<and>
           (case r of
              Inr u \<Rightarrow> m = numBufs st
            | Inl e \<Rightarrow> m < numBufs st \<and> fileP (D st m) = Some f \<and> 0 < pinCnt (D st m) \<and>
                e = PagePinned f (pageNo (D st m)) m)"
  using flushFile_loop_range [of 0 "numBufs st" f st st' r] assms
  unfolding flushFile_def by auto

text \<open>
  What a pinned-page exception of \<open>flushFile\<close> tells about the states before and after
  the call.
\<close>

lemma flushFile_pinned_effect:
  assumes "flushFile f st = (st', Inl (PagePinned f' p i))"
    and "length (bufDescTable st) = numBufs st"
  shows "f' = f \<and> i < numBufs st \<and> fileP (D st i) = Some f \<and> 0 < pinCnt (D st i) \<and>
         p = pageNo (D st i) \<and>
         (\<forall>j<i. fileP (D st j) = Some f \<longrightarrow>
            pinCnt (D st j) = 0 \<and> D st' j = BufDesc_Clear (D st j) \<and>
            idx st' (Some f, pageNo (D st j)) = None) \<and>
         (\<forall>j. i \<le> j \<or> fileP (D st j) \<noteq> Some f \<longrightarrow> D st' j = D st j) \<and>
         (\<forall>key. (\<forall>j<i. fileP (D st j) = Some f \<longrightarrow> key \<noteq> (Some f, pageNo (D st j))) \<longrightarrow>
            idx st' key = idx st key) \<and>
         bufPool st' = bufPool st \<and> clockHand st' = clockHand st \<and>
         files st' =
           fold (\<lambda>j. file_writePage f (bufPool st ! j))
             (filter (\<lambda>j. fileP (D st j) = Some f \<and> dirty (D st j)) [0..<i]) (files st) \<and>
         trace (files st') =
           trace (files st) @
           map (\<lambda>j. IoWrite f (bufPool st ! j))
             (filter (\<lambda>j. fileP (D st j) = Some f \<and> dirty (D st j)) [0..<i])"
proof -
  from flushFile_range [OF assms(1,2)]
  have stop: "f' = f" "i < numBufs st" "fileP (D st i) = Some f" "0 < pinCnt (D st i)"
    "p = pageNo (D st i)" and res: "flush_result f 0 i st st'"
    by auto
  have frames: "j \<in> frames_of f st 0 i \<longleftrightarrow> j < i \<and> fileP (D st j) = Some f" for j
    by (simp add: frames_of_def)
  have dirty: "file_dirty f st = (\<lambda>j. fileP (D st j) = Some f \<and> dirty (D st j))"
    by (simp add: file_dirty_def fun_eq_iff)
  from res have disk: "files st' =
      fold (\<lambda>j. file_writePage f (bufPool st ! j))
        (filter (\<lambda>j. fileP (D st j) = Some f \<and> dirty (D st j)) [0..<i]) (files st)"
    by (simp add: flush_result_def dirty)
  from res have index: "idx st' key =
        (if key \<in> (\<lambda>j. (Some f, pageNo (D st j))) ` frames_of f st 0 i then None
         else idx st key)" for key
    unfolding flush_result_def by blast
  have "\<forall>j<i. fileP (D st j) = Some f \<longrightarrow>
            pinCnt (D st j) = 0 \<and> D st' j = BufDesc_Clear (D st j) \<and>
            idx st' (Some f, pageNo (D st j)) = None"
    using res index by (auto simp add: flush_result_def frames)
  moreover have "\<forall>j. i \<le> j \<or> fileP (D st j) \<noteq> Some f \<longrightarrow> D st' j = D st j"
    using res by (auto simp add: flush_result_def frames)
  moreover have "\<forall>key. (\<forall>j<i. fileP (D st j) = Some f \<longrightarrow> key \<noteq> (Some f, pageNo (D st j))) \<longrightarrow>
            idx st' key = idx st key"
    using index by (auto simp add: frames)
  moreover have "bufPool st' = bufPool st \<and> clockHand st' = clockHand st"
    using res by (simp add: flush_result_def)
  moreover have "trace (files st') =
           trace (files st) @
           map (\<lambda>j. IoWrite f (bufPool st ! j))
             (filter (\<lambda>j. fileP (D st j) = Some f \<and> dirty (D st j)) [0..<i])"
    unfolding disk by (rule trace_fold_writePage)
  ultimately show ?thesis using stop disk by blast
qed

text \<open>
  C8: after \<open>flushFile\<close> returns normally from a state satisfying the invariant, no
  descriptor names the file, the index has no entry for any page of the file, and for every
  frame that held a dirty page of the file \<open>writePage\<close> was called with that frame's
  buffer, whose page number is the descriptor's, and the file stores the buffer's contents
  under that number.
\<close>

theorem flushFile_success_leaves_no_page:
  assumes "flushFile f st = (st', Inr ())" and "wf_mgr st"
  shows "(\<forall>i<numBufs st'. fileP (D st' i) \<noteq> Some f) \<and>
         (\<forall>p. idx st' (Some f, p) = None) \<and>
         (\<forall>i<numBufs st. fileP (D st i) = Some f \<and> dirty (D st i) \<longrightarrow>
            IoWrite f (bufPool st ! i) \<in> set (trace (files st')) \<and>
            page_number (bufPool st ! i) = pageNo (D st i) \<and>
            map_of (stored (files st')) (f, pageNo (D st i)) = Some (contents (bufPool st ! i)))"
proof -
  let ?n = "numBufs st"
  let ?dirty = "filter (file_dirty f st) [0..<?n]"
  from flushFile_range [OF assms(1) wf_sizes(3) [OF assms(2)]]
  have res: "flush_result f 0 ?n st st'" by auto
  have frames: "j \<in> frames_of f st 0 ?n \<longleftrightarrow> j < ?n \<and> fileP (D st j) = Some f" for j
    by (simp add: frames_of_def)
  from res have n: "numBufs st' = ?n"
    and disk: "files st' = fold (\<lambda>j. file_writePage f (bufPool st ! j)) ?dirty (files st)"
    by (simp_all add: flush_result_def)
  from res have index: "idx st' key =
        (if key \<in> (\<lambda>j. (Some f, pageNo (D st j))) ` frames_of f st 0 ?n then None
         else idx st key)" for key
    unfolding flush_result_def by blast
  have "fileP (D st' i) \<noteq> Some f" if "i < numBufs st'" for i
  proof (cases "fileP (D st i) = Some f")
    case True
    with that n res have "D st' i = BufDesc_Clear (D st i)"
      by (simp add: flush_result_def frames)
    then show ?thesis by (simp add: BufDesc_Clear_def)
  next
    case False
    with res have "D st' i = D st i" by (simp add: flush_result_def frames)
    with False show ?thesis by simp
  qed
  moreover have "idx st' (Some f, p) = None" for p
  proof (cases "idx st (Some f, p)")
    case None
    then show ?thesis by (simp add: index)
  next
    case (Some i)
    from wf_index_valid [OF assms(2) Some]
    have "i \<in> frames_of f st 0 ?n" "(Some f, p) = (Some f, pageNo (D st i))"
      by (simp_all add: frames)
    then have "(Some f, p) \<in> (\<lambda>j. (Some f, pageNo (D st j))) ` frames_of f st 0 ?n"
      by (rule rev_image_eqI)
    then show ?thesis by (simp add: index)
  qed
  moreover have "IoWrite f (bufPool st ! i) \<in> set (trace (files st')) \<and>
            page_number (bufPool st ! i) = pageNo (D st i) \<and>
            map_of (stored (files st')) (f, pageNo (D st i)) = Some (contents (bufPool st ! i))"
    if i: "i < ?n" and mine: "fileP (D st i) = Some f \<and> dirty (D st i)" for i
  proof -
    from i mine have member: "i \<in> set ?dirty" by (simp add: file_dirty_def)
    from assms(2) i mine have v: "valid (D st i)" by (auto intro: wf_file_valid)
    with assms(2) i have number: "page_number (bufPool st ! i) = pageNo (D st i)"
      by (rule wf_buffer_number)
    have unique: "\<forall>j \<in> set ?dirty. page_number (bufPool st ! j) = page_number (bufPool st ! i) \<longrightarrow> j = i"
    proof (intro ballI impI)
      fix j
      assume j: "j \<in> set ?dirty" and same: "page_number (bufPool st ! j) = page_number (bufPool st ! i)"
      from j have jn: "j < ?n" and jf: "fileP (D st j) = Some f" by (simp_all add: file_dirty_def)
      from assms(2) jn jf have jv: "valid (D st j)" by (rule wf_file_valid)
      from wf_buffer_number [OF assms(2) jn jv] same number
      have "pageNo (D st j) = pageNo (D st i)" by simp
      with wf_valid_index [OF assms(2) jn jv] wf_valid_index [OF assms(2) i v] jf mine
      show "j = i" by simp
    qed
    from member have "IoWrite f (bufPool st ! i) \<in> set (trace (files st'))"
      by (simp add: disk trace_fold_writePage)
    moreover from stored_fold_writePage [OF member unique, of f "files st"]
    have "map_of (stored (files st')) (f, pageNo (D st i)) = Some (contents (bufPool st ! i))"
      by (simp add: disk number)
    ultimately show ?thesis using number by simp
  qed
  ultimately show ?thesis by blast
qed


lemma upt_0_3: "[0..<3] = [0, 1, 2]"
  by (simp add: upt_rec)

lemmas flush_defs = flushFile_def upt_0_3 flushFile_loop.simps Let_def hash_remove_def
  file_writePage_def BufDesc_Clear_def

theorem flushFile_success_leaves_no_page_witness:
  "\<exists>st'. flushFile 7 unpinned3 = (st', Inr ()) \<and>
     fileP (D st' 0) \<noteq> Some 7 \<and> fileP (D st' 1) \<noteq> Some 7 \<and> fileP (D st' 2) \<noteq> Some 7 \<and>
     idx st' (Some 7, 2) = None \<and>
     IoWrite 7 \<lparr>page_number = 2, contents = 12\<rparr> \<in> set (trace (files st')) \<and>
     map_of (stored (files st')) (7, 2) = Some 12"
proof -
  obtain st' where run: "flushFile 7 unpinned3 = (st', Inr ())"
    by (simp add: flush_defs example_defs)
  have pre: "numBufs unpinned3 = 3" "fileP (D unpinned3 1) = Some 7 \<and> dirty (D unpinned3 1)"
    "bufPool unpinned3 ! 1 = \<lparr>page_number = 2, contents = 12\<rparr>" "pageNo (D unpinned3 1) = 2"
    by (simp_all add: example_defs)
  note flushed = flushFile_success_leaves_no_page [OF run wf_unpinned3]
  have n: "numBufs st' = 3" using run by (auto simp add: flush_defs example_defs)
  from flushed n have "fileP (D st' 0) \<noteq> Some 7 \<and> fileP (D st' 1) \<noteq> Some 7 \<and> fileP (D st' 2) \<noteq> Some 7"
    by (simp add: all_less_numeral)
  moreover from flushed have "idx st' (Some 7, 2) = None" by blast
  moreover from flushed pre
  have "IoWrite 7 \<lparr>page_number = 2, contents = 12\<rparr> \<in> set (trace (files st')) \<and>
     map_of (stored (files st')) (7, 2) = Some 12"
    by (simp add: all_less_numeral)
  ultimately show ?thesis using run by blast
qed


section \<open>Steps that keep the invariant\<close>

lemma wf_mgrI:
  assumes "sizes_ok st"
    and "\<And>i. i < numBufs st \<Longrightarrow> \<not> valid (D st i) \<Longrightarrow>
           pinCnt (D st i) = 0 \<and> \<not> dirty (D st i) \<and> fileP (D st i) = None"
    and "\<And>a p i. idx st (a, p) = Some i \<Longrightarrow>
           i < numBufs st \<and> valid (D st i) \<and> fileP (D st i) = a \<and> pageNo (D st i) = p"
    and "\<And>i. i < numBufs st \<Longrightarrow> valid (D st i) \<Longrightarrow>
           idx st (fileP (D st i), pageNo (D st i)) = Some i \<and>
           page_number (bufPool st ! i) = pageNo (D st i) \<and>
           (\<exists>f c. fileP (D st i) = Some f \<and> map_of (stored (files st)) (f, pageNo (D st i)) = Some c)"
    and "\<And>f p c. map_of (stored (files st)) (f, p) = Some c \<Longrightarrow> p < fresh (files st) f"
  shows "wf_mgr st"
  unfolding wf_mgr_def state_inv_iff frames_backed_iff disk_fresh_iff
  using assms by (intro conjI allI impI; (simp; fail | blast | force))

lemma wf_invalid:
  assumes "wf_mgr st" and "i < numBufs st" and "\<not> valid (D st i)"
  shows "pinCnt (D st i) = 0" "\<not> dirty (D st i)" "fileP (D st i) = None"
  using assms unfolding wf_mgr_def state_inv_iff frames_backed_iff by blast+

lemma wf_valid_stored:
  assumes "wf_mgr st" and "i < numBufs st" and "valid (D st i)"
  shows "\<exists>f c. fileP (D st i) = Some f \<and> map_of (stored (files st)) (f, pageNo (D st i)) = Some c"
  using assms unfolding wf_mgr_def frames_backed_iff by blast

lemma wf_fresh:
  assumes "wf_mgr st" and "map_of (stored (files st)) (f, p) = Some c"
  shows "p < fresh (files st) f"
  using assms unfolding wf_mgr_def disk_fresh_iff by blast

lemma wf_clockHand:
  assumes "wf_mgr st" and "h < numBufs st"
  shows "wf_mgr (st\<lparr>clockHand := h\<rparr>)"
  using assms
  by (simp add: wf_mgr_def sizes_ok_def state_inv_iff frames_backed_iff)

lemma wf_advanceClock:
  assumes "wf_mgr st"
  shows "wf_mgr (advanceClock st)"
  unfolding advanceClock_def using assms wf_sizes(1) [OF assms]
  by (intro wf_clockHand) simp_all

lemma wf_trace:
  assumes "wf_mgr st"
  shows "wf_mgr (st\<lparr>files := (files st)\<lparr>trace := t\<rparr>\<rparr>)"
  using assms
  by (simp add: wf_mgr_def sizes_ok_def state_inv_iff frames_backed_iff disk_fresh_iff)

lemma wf_update_desc:
  assumes wf: "wf_mgr st"
    and same: "valid d = valid (D st h)" "fileP d = fileP (D st h)" "pageNo d = pageNo (D st h)"
    and empty: "valid d \<or> pinCnt d = 0 \<and> \<not> dirty d"
  shows "wf_mgr (st\<lparr>bufDescTable := (bufDescTable st)[h := d]\<rparr>)"
proof (rule wf_mgrI)
  let ?st' = "st\<lparr>bufDescTable := (bufDescTable st)[h := d]\<rparr>"
  have d: "valid ((bufDescTable st)[h := d] ! i) = valid (D st i)"
    "fileP ((bufDescTable st)[h := d] ! i) = fileP (D st i)"
    "pageNo ((bufDescTable st)[h := d] ! i) = pageNo (D st i)" for i
    using same by (simp_all add: nth_list_update_if)
  show "sizes_ok ?st'" using wf by (simp add: wf_mgr_def sizes_ok_def)
  show "pinCnt (D ?st' i) = 0 \<and> \<not> dirty (D ?st' i) \<and> fileP (D ?st' i) = None"
    if i: "i < numBufs ?st'" "\<not> valid (D ?st' i)" for i
  proof (cases "i = h")
    case True
    with i wf_sizes(3) [OF wf] have "D ?st' i = d" by simp
    with i empty same True wf_invalid(3) [OF wf, of h] show ?thesis by auto
  next
    case False
    with i wf_invalid [OF wf, of i] show ?thesis by simp
  qed
  show "i < numBufs ?st' \<and> valid (D ?st' i) \<and> fileP (D ?st' i) = a \<and> pageNo (D ?st' i) = p"
    if "idx ?st' (a, p) = Some i" for a p i
    using that wf_index_valid [OF wf, of a p i] by (simp add: d)
  show "idx ?st' (fileP (D ?st' i), pageNo (D ?st' i)) = Some i \<and>
        page_number (bufPool ?st' ! i) = pageNo (D ?st' i) \<and>
        (\<exists>f c. fileP (D ?st' i) = Some f \<and>
           map_of (stored (files ?st')) (f, pageNo (D ?st' i)) = Some c)"
    if "i < numBufs ?st'" "valid (D ?st' i)" for i
    using that wf_valid_index [OF wf, of i] wf_buffer_number [OF wf, of i]
      wf_valid_stored [OF wf, of i]
    by (simp add: d)
  show "p < fresh (files ?st') f" if "map_of (stored (files ?st')) (f, p) = Some c" for f p c
    using that wf_fresh [OF wf] by simp
qed

lemma wf_write:
  assumes wf: "wf_mgr st" and h: "h < numBufs st" "valid (D st h)" "fileP (D st h) = Some f"
  shows "wf_mgr (st\<lparr>files := file_writePage f (bufPool st ! h) (files st)\<rparr>)"
proof (rule wf_mgrI)
  let ?st' = "st\<lparr>files := file_writePage f (bufPool st ! h) (files st)\<rparr>"
  let ?key = "(f, pageNo (D st h))"
  from wf h have number: "page_number (bufPool st ! h) = pageNo (D st h)"
    by (simp add: wf_buffer_number)
  from wf_valid_stored [OF wf h(1,2)] h(3) obtain c0 where c0: "map_of (stored (files st)) ?key = Some c0"
    by auto
  have stored: "map_of (stored (files ?st')) = (map_of (stored (files st)))(?key \<mapsto> contents (bufPool st ! h))"
    and fresh: "fresh (files ?st') = fresh (files st)"
    by (simp_all add: file_writePage_def update_conv' number)
  show "sizes_ok ?st'" using wf by (simp add: wf_mgr_def sizes_ok_def)
  show "pinCnt (D ?st' i) = 0 \<and> \<not> dirty (D ?st' i) \<and> fileP (D ?st' i) = None"
    if "i < numBufs ?st'" "\<not> valid (D ?st' i)" for i
    using that wf_invalid [OF wf, of i] by simp
  show "i < numBufs ?st' \<and> valid (D ?st' i) \<and> fileP (D ?st' i) = a \<and> pageNo (D ?st' i) = p"
    if "idx ?st' (a, p) = Some i" for a p i
    using that wf_index_valid [OF wf, of a p i] by simp
  show "idx ?st' (fileP (D ?st' i), pageNo (D ?st' i)) = Some i \<and>
        page_number (bufPool ?st' ! i) = pageNo (D ?st' i) \<and>
        (\<exists>f c. fileP (D ?st' i) = Some f \<and>
           map_of (stored (files ?st')) (f, pageNo (D ?st' i)) = Some c)"
    if "i < numBufs ?st'" "valid (D ?st' i)" for i
    using that wf_valid_index [OF wf, of i] wf_buffer_number [OF wf, of i]
      wf_valid_stored [OF wf, of i]
    unfolding stored by auto
  show "p < fresh (files ?st') g" if "map_of (stored (files ?st')) (g, p) = Some c" for g p c
    using that wf_fresh [OF wf c0] wf_fresh [OF wf, of g p c]
    unfolding stored fresh by (auto split: if_splits)
qed


lemma wf_clear:
  assumes wf: "wf_mgr st" and h: "h < numBufs st" "valid (D st h)"
  shows "wf_mgr (st\<lparr>hashTable := AList.delete (fileP (D st h), pageNo (D st h)) (hashTable st),
                     bufDescTable := (bufDescTable st)[h := BufDesc_Clear d]\<rparr>)"
proof (rule wf_mgrI)
  let ?key = "(fileP (D st h), pageNo (D st h))"
  let ?T = "(bufDescTable st)[h := BufDesc_Clear d]"
  let ?st' = "st\<lparr>hashTable := AList.delete ?key (hashTable st), bufDescTable := ?T\<rparr>"
  from wf h have len: "h < length (bufDescTable st)" by (simp add: wf_sizes)
  have index: "idx ?st' = (idx st)(?key := None)" by (simp add: delete_conv')
  have here: "?T ! h = BufDesc_Clear d" using len by simp
  have other: "?T ! i = D st i" if "i \<noteq> h" for i using that by simp
  from wf h have key_h: "idx st ?key = Some h" by (rule wf_valid_index)
  show "sizes_ok ?st'" using wf by (simp add: wf_mgr_def sizes_ok_def)
  show "pinCnt (D ?st' i) = 0 \<and> \<not> dirty (D ?st' i) \<and> fileP (D ?st' i) = None"
    if i: "i < numBufs ?st'" "\<not> valid (D ?st' i)" for i
  proof (cases "i = h")
    case True
    with len show ?thesis by (simp add: BufDesc_Clear_def)
  next
    case False
    with i wf_invalid [OF wf, of i] show ?thesis by (simp add: other)
  qed
  show "i < numBufs ?st' \<and> valid (D ?st' i) \<and> fileP (D ?st' i) = a \<and> pageNo (D ?st' i) = p"
    if entry: "idx ?st' (a, p) = Some i" for a p i
  proof -
    from entry have ne: "(a, p) \<noteq> ?key" and old: "idx st (a, p) = Some i"
      unfolding index by (auto split: if_splits)
    note v = wf_index_valid [OF wf old]
    from v(3,4) ne have "i \<noteq> h" by auto
    with v show ?thesis by (simp add: other)
  qed
  show "idx ?st' (fileP (D ?st' i), pageNo (D ?st' i)) = Some i \<and>
        page_number (bufPool ?st' ! i) = pageNo (D ?st' i) \<and>
        (\<exists>f c. fileP (D ?st' i) = Some f \<and>
           map_of (stored (files ?st')) (f, pageNo (D ?st' i)) = Some c)"
    if i: "i < numBufs ?st'" "valid (D ?st' i)" for i
  proof -
    from i len have ne: "i \<noteq> h" by (auto simp add: BufDesc_Clear_def)
    with i have old: "i < numBufs st" "valid (D st i)" by (simp_all add: other)
    from wf old have key_i: "idx st (fileP (D st i), pageNo (D st i)) = Some i"
      by (rule wf_valid_index)
    with key_h ne have "(fileP (D st i), pageNo (D st i)) \<noteq> ?key" by auto
    with key_i have "idx ?st' (fileP (D st i), pageNo (D st i)) = Some i"
      unfolding index by simp
    with ne wf_buffer_number [OF wf old] wf_valid_stored [OF wf old] show ?thesis
      by (simp add: other)
  qed
  show "p < fresh (files ?st') f" if "map_of (stored (files ?st')) (f, p) = Some c" for f p c
    using that wf_fresh [OF wf] by simp
qed

lemma wf_install:
  assumes wf: "wf_mgr st" and i0: "i0 < numBufs st" "\<not> valid (D st i0)"
    and absent: "idx st (Some f, p) = None"
    and on_disk: "map_of (stored (files st)) (f, p) = Some c"
    and page: "page_number pg = p"
    and d: "valid d" "fileP d = Some f" "pageNo d = p"
  shows "wf_mgr (st\<lparr>bufPool := (bufPool st)[i0 := pg],
                     hashTable := AList.update (Some f, p) i0 (hashTable st),
                     bufDescTable := (bufDescTable st)[i0 := d]\<rparr>)"
proof (rule wf_mgrI)
  let ?T = "(bufDescTable st)[i0 := d]"
  let ?P = "(bufPool st)[i0 := pg]"
  let ?st' = "st\<lparr>bufPool := ?P, hashTable := AList.update (Some f, p) i0 (hashTable st),
                 bufDescTable := ?T\<rparr>"
  from wf i0 have len: "i0 < length (bufDescTable st)" "i0 < length (bufPool st)"
    by (simp_all add: wf_sizes)
  have index: "idx ?st' = (idx st)((Some f, p) \<mapsto> i0)" by (simp add: update_conv')
  have here: "?T ! i0 = d" "?P ! i0 = pg" using len by simp_all
  have other: "?T ! i = D st i" "?P ! i = bufPool st ! i" if "i \<noteq> i0" for i
    using that by simp_all
  show "sizes_ok ?st'" using wf by (simp add: wf_mgr_def sizes_ok_def)
  show "pinCnt (D ?st' i) = 0 \<and> \<not> dirty (D ?st' i) \<and> fileP (D ?st' i) = None"
    if i: "i < numBufs ?st'" "\<not> valid (D ?st' i)" for i
  proof -
    from i d(1) have "i \<noteq> i0" by (auto simp add: here)
    with i wf_invalid [OF wf, of i] show ?thesis by (simp add: other)
  qed
  show "i < numBufs ?st' \<and> valid (D ?st' i) \<and> fileP (D ?st' i) = a \<and> pageNo (D ?st' i) = q"
    if entry: "idx ?st' (a, q) = Some i" for a q i
  proof (cases "(a, q) = (Some f, p)")
    case True
    with entry have "i = i0" unfolding index by simp
    with True i0 d show ?thesis by (simp add: here)
  next
    case False
    with entry have old: "idx st (a, q) = Some i" unfolding index by (auto split: if_splits)
    note v = wf_index_valid [OF wf old]
    from v(2) i0(2) have "i \<noteq> i0" by auto
    with v show ?thesis by (simp add: other)
  qed
  show "idx ?st' (fileP (D ?st' i), pageNo (D ?st' i)) = Some i \<and>
        page_number (bufPool ?st' ! i) = pageNo (D ?st' i) \<and>
        (\<exists>f c. fileP (D ?st' i) = Some f \<and>
           map_of (stored (files ?st')) (f, pageNo (D ?st' i)) = Some c)"
    if i: "i < numBufs ?st'" "valid (D ?st' i)" for i
  proof (cases "i = i0")
    case True
    with d page on_disk show ?thesis by (simp add: here update_conv')
  next
    case False
    with i have old: "i < numBufs st" "valid (D st i)" by (simp_all add: other)
    from wf old have key_i: "idx st (fileP (D st i), pageNo (D st i)) = Some i"
      by (rule wf_valid_index)
    with absent have "(fileP (D st i), pageNo (D st i)) \<noteq> (Some f, p)" by auto
    with key_i have "idx ?st' (fileP (D st i), pageNo (D st i)) = Some i"
      unfolding index by auto
    with False wf_buffer_number [OF wf old] wf_valid_stored [OF wf old] show ?thesis
      by (simp add: other)
  qed
  show "q < fresh (files ?st') g" if "map_of (stored (files ?st')) (g, q) = Some c'" for g q c'
    using that wf_fresh [OF wf] by simp
qed

lemma wf_allocate:
  assumes wf: "wf_mgr st"
  shows "wf_mgr (st\<lparr>files := fst (file_allocatePage f (files st))\<rparr>)"
proof (rule wf_mgrI)
  let ?p = "fresh (files st) f"
  let ?st' = "st\<lparr>files := fst (file_allocatePage f (files st))\<rparr>"
  have stored: "map_of (stored (files ?st')) = (map_of (stored (files st)))((f, ?p) \<mapsto> 0)"
    and fresh: "fresh (files ?st') = (fresh (files st))(f := ?p + 1)"
    by (simp_all add: file_allocatePage_def Let_def update_conv')
  show "sizes_ok ?st'" using wf by (simp add: wf_mgr_def sizes_ok_def)
  show "pinCnt (D ?st' i) = 0 \<and> \<not> dirty (D ?st' i) \<and> fileP (D ?st' i) = None"
    if "i < numBufs ?st'" "\<not> valid (D ?st' i)" for i
    using that wf_invalid [OF wf, of i] by simp
  show "i < numBufs ?st' \<and> valid (D ?st' i) \<and> fileP (D ?st' i) = a \<and> pageNo (D ?st' i) = p"
    if "idx ?st' (a, p) = Some i" for a p i
    using that wf_index_valid [OF wf, of a p i] by simp
  show "idx ?st' (fileP (D ?st' i), pageNo (D ?st' i)) = Some i \<and>
        page_number (bufPool ?st' ! i) = pageNo (D ?st' i) \<and>
        (\<exists>f c. fileP (D ?st' i) = Some f \<and>
           map_of (stored (files ?st')) (f, pageNo (D ?st' i)) = Some c)"
    if "i < numBufs ?st'" "valid (D ?st' i)" for i
    using that wf_valid_index [OF wf, of i] wf_buffer_number [OF wf, of i]
      wf_valid_stored [OF wf, of i]
    unfolding stored by auto
  show "q < fresh (files ?st') g" if "map_of (stored (files ?st')) (g, q) = Some c" for g q c
    using that wf_fresh [OF wf, of g q c]
    unfolding stored fresh by (auto split: if_splits)
qed

lemma wf_delete:
  assumes wf: "wf_mgr st" and absent: "idx st (Some f, p) = None"
  shows "wf_mgr (st\<lparr>files := file_deletePage f p (files st)\<rparr>)"
proof (rule wf_mgrI)
  let ?st' = "st\<lparr>files := file_deletePage f p (files st)\<rparr>"
  have stored: "map_of (stored (files ?st')) = (map_of (stored (files st)))((f, p) := None)"
    and fresh: "fresh (files ?st') = fresh (files st)"
    by (simp_all add: file_deletePage_def delete_conv')
  show "sizes_ok ?st'" using wf by (simp add: wf_mgr_def sizes_ok_def)
  show "pinCnt (D ?st' i) = 0 \<and> \<not> dirty (D ?st' i) \<and> fileP (D ?st' i) = None"
    if "i < numBufs ?st'" "\<not> valid (D ?st' i)" for i
    using that wf_invalid [OF wf, of i] by simp
  show "i < numBufs ?st' \<and> valid (D ?st' i) \<and> fileP (D ?st' i) = a \<and> pageNo (D ?st' i) = q"
    if "idx ?st' (a, q) = Some i" for a q i
    using that wf_index_valid [OF wf, of a q i] by simp
  show "idx ?st' (fileP (D ?st' i), pageNo (D ?st' i)) = Some i \<and>
        page_number (bufPool ?st' ! i) = pageNo (D ?st' i) \<and>
        (\<exists>f c. fileP (D ?st' i) = Some f \<and>
           map_of (stored (files ?st')) (f, pageNo (D ?st' i)) = Some c)"
    if i: "i < numBufs ?st'" "valid (D ?st' i)" for i
  proof -
    from i have old: "i < numBufs st" "valid (D st i)" by simp_all
    from wf old have key_i: "idx st (fileP (D st i), pageNo (D st i)) = Some i"
      by (rule wf_valid_index)
    with absent have ne: "(fileP (D st i), pageNo (D st i)) \<noteq> (Some f, p)" by auto
    from wf_valid_stored [OF wf old] obtain g c
      where g: "fileP (D st i) = Some g" "map_of (stored (files st)) (g, pageNo (D st i)) = Some c"
      by auto
    with ne have "map_of (stored (files ?st')) (g, pageNo (D st i)) = Some c"
      unfolding stored by auto
    with g key_i wf_buffer_number [OF wf old] show ?thesis by simp
  qed
  show "q < fresh (files ?st') g" if "map_of (stored (files ?st')) (g, q) = Some c" for g q c
    using that wf_fresh [OF wf, of g q c]
    unfolding stored fresh by (auto split: if_splits)
qed


section \<open>The allocator keeps the invariant\<close>

lemma only_evicts_refl: "only_evicts st st"
  by (simp add: only_evicts_def)

lemma only_evicts_trans:
  assumes "only_evicts st st1" and "only_evicts st1 st2"
  shows "only_evicts st st2"
  using assms unfolding only_evicts_def by (metis (no_types, opaque_lifting))

lemma evict_wf:
  assumes wf: "wf_mgr st" and h: "h < numBufs st" "valid (D st h)"
  shows "\<exists>st'. evict h st = (st', Inr h) \<and> wf_mgr st' \<and> \<not> valid (D st' h) \<and>
           numBufs st' = numBufs st \<and> only_evicts st st'"
proof -
  let ?d = "D st h"
  from wf_valid_stored [OF wf h] obtain f c
    where f: "fileP ?d = Some f" and c: "map_of (stored (files st)) (f, pageNo ?d) = Some c"
    by auto
  define st1 where
    "st1 = (if dirty ?d then st\<lparr>files := file_writePage f (bufPool st ! h) (files st)\<rparr> else st)"
  have fields: "bufDescTable st1 = bufDescTable st" "hashTable st1 = hashTable st"
    "numBufs st1 = numBufs st"
    by (simp_all add: st1_def)
  have wf1: "wf_mgr st1"
    unfolding st1_def using wf h f by (simp add: wf_write)
  from wf h have number: "page_number (bufPool st ! h) = pageNo ?d" by (rule wf_buffer_number)
  have disk1: "only_evicts st st1"
    unfolding only_evicts_def st1_def
    by (auto simp add: file_writePage_def update_conv')
  from wf h have key: "idx st (fileP ?d, pageNo ?d) = Some h" by (rule wf_valid_index)
  let ?st' = "st1\<lparr>hashTable := AList.delete (fileP (D st1 h), pageNo (D st1 h)) (hashTable st1),
                   bufDescTable := (bufDescTable st1)[h := BufDesc_Clear ?d]\<rparr>"
  have run: "evict h st = (?st', Inr h)"
    using f key by (simp add: evict_def Let_def st1_def hash_remove_def)
  have "wf_mgr ?st'"
    using wf1 h by (intro wf_clear) (simp_all add: fields)
  moreover have "\<not> valid (D ?st' h)"
    using h wf_sizes(3) [OF wf] by (simp add: fields BufDesc_Clear_def)
  moreover have "only_evicts st1 ?st'"
    by (simp add: only_evicts_def delete_conv')
  with disk1 have "only_evicts st ?st'" by (rule only_evicts_trans)
  ultimately show ?thesis using run by (simp add: fields)
qed

lemma allocBuf_loop_wf:
  assumes "wf_mgr st" and "allocBuf_loop k st = (st', r)"
  shows "wf_mgr st' \<and> numBufs st' = numBufs st \<and> only_evicts st st' \<and>
         (case r of Inl e \<Rightarrow> e = BufferExceeded | Inr i \<Rightarrow> i < numBufs st \<and> \<not> valid (D st' i))"
  using assms
proof (induction k arbitrary: st)
  case 0
  then show ?case by (auto simp add: only_evicts_refl)
next
  case (Suc k)
  let ?st1 = "advanceClock st"
  let ?h = "clockHand ?st1"
  from Suc.prems(1) have wf1: "wf_mgr ?st1" by (rule wf_advanceClock)
  have same: "numBufs ?st1 = numBufs st" "only_evicts st ?st1"
    by (simp_all add: advanceClock_def only_evicts_def)
  from wf1 have h: "?h < numBufs ?st1" by (rule wf_sizes)
  consider (empty) "\<not> valid (D ?st1 ?h)"
    | (ref) "valid (D ?st1 ?h)" "refbit (D ?st1 ?h)"
    | (pinned) "valid (D ?st1 ?h)" "\<not> refbit (D ?st1 ?h)" "pinCnt (D ?st1 ?h) > 0"
    | (victim) "valid (D ?st1 ?h)" "\<not> refbit (D ?st1 ?h)" "pinCnt (D ?st1 ?h) = 0"
    by blast
  then show ?case
  proof cases
    case empty
    with Suc.prems(2) have "st' = ?st1" "r = Inr ?h" by (auto simp add: Let_def)
    with wf1 same h empty show ?thesis by simp
  next
    case ref
    let ?st2 = "?st1\<lparr>bufDescTable := (bufDescTable ?st1)[?h := (D ?st1 ?h)\<lparr>refbit := False\<rparr>]\<rparr>"
    from ref Suc.prems(2) have run: "allocBuf_loop k ?st2 = (st', r)" by (simp add: Let_def)
    from wf1 have wf2: "wf_mgr ?st2" by (rule wf_update_desc) (simp_all add: ref)
    have "only_evicts ?st1 ?st2" by (simp add: only_evicts_def)
    with same(2) have "only_evicts st ?st2" by (rule only_evicts_trans)
    with Suc.IH [OF wf2 run] same(1) show ?thesis
      by (auto intro: only_evicts_trans split: sum.splits)
  next
    case pinned
    with Suc.prems(2) have run: "allocBuf_loop k ?st1 = (st', r)" by (simp add: Let_def)
    from Suc.IH [OF wf1 run] same show ?thesis
      by (auto intro: only_evicts_trans split: sum.splits)
  next
    case victim
    with Suc.prems(2) have run: "evict ?h ?st1 = (st', r)" by (simp add: Let_def)
    from evict_wf [OF wf1 h victim(1)] run same h show ?thesis
      by (auto intro: only_evicts_trans split: sum.splits)
  qed
qed

lemma allocBuf_wf:
  assumes "wf_mgr st" and "allocBuf st = (st', r)"
  shows "wf_mgr st' \<and> numBufs st' = numBufs st \<and> only_evicts st st' \<and>
         (case r of Inl e \<Rightarrow> e = BufferExceeded | Inr i \<Rightarrow> i < numBufs st \<and> \<not> valid (D st' i))"
  using assms unfolding allocBuf_def by (rule allocBuf_loop_wf)


section \<open>Every public operation keeps the invariant\<close>

lemma wf_init:
  assumes "0 < n" and "n < 2 ^ 32 - 1" and "disk_fresh fs"
  shows "wf_mgr (BufMgr_init n fs)"
proof (rule wf_mgrI)
  let ?st = "BufMgr_init n fs"
  have frame: "D ?st i = empty_desc i" if "i < n" for i
    using that by (simp add: BufMgr_init_def empty_desc_def)
  have n: "numBufs ?st = n" by (simp add: BufMgr_init_def)
  show "sizes_ok ?st" using assms(1,2) by (simp add: sizes_ok_def BufMgr_init_def)
  show "pinCnt (D ?st i) = 0 \<and> \<not> dirty (D ?st i) \<and> fileP (D ?st i) = None"
    if "i < numBufs ?st" for i
    using that by (simp add: n frame empty_desc_def)
  show "i < numBufs ?st \<and> valid (D ?st i) \<and> fileP (D ?st i) = a \<and> pageNo (D ?st i) = p"
    if "idx ?st (a, p) = Some i" for a p i
    using that by (simp add: BufMgr_init_def)
  show "idx ?st (fileP (D ?st i), pageNo (D ?st i)) = Some i \<and>
        page_number (bufPool ?st ! i) = pageNo (D ?st i) \<and>
        (\<exists>f c. fileP (D ?st i) = Some f \<and> map_of (stored (files ?st)) (f, pageNo (D ?st i)) = Some c)"
    if "i < numBufs ?st" "valid (D ?st i)" for i
    using that by (simp add: n frame empty_desc_def)
  show "p < fresh (files ?st) f" if "map_of (stored (files ?st)) (f, p) = Some c" for f p c
    using that assms(3) by (simp add: BufMgr_init_def disk_fresh_iff)
qed

lemma unPinPage_wf:
  assumes wf: "wf_mgr st"
  shows "wf_mgr (fst (unPinPage f p b st))"
proof (cases "idx st (Some f, p)")
  case None
  with wf show ?thesis by (simp add: unPinPage_def hash_lookup_def)
next
  case (Some i)
  from wf_index_valid(2) [OF wf Some]
  have "wf_mgr (st\<lparr>bufDescTable := (bufDescTable st)[i := (D st i)\<lparr>dirty := True, pinCnt := pinCnt (D st i) - 1\<rparr>]\<rparr>)"
    by (intro wf_update_desc [OF wf]) simp_all
  with wf Some show ?thesis by (simp add: unPinPage_def hash_lookup_def Let_def)
qed

lemma readPage_wf:
  assumes wf: "wf_mgr st"
  shows "wf_mgr (fst (readPage f p st))"
proof (cases "idx st (Some f, p)")
  case (Some i)
  from wf_index_valid(2) [OF wf Some]
  have "wf_mgr (st\<lparr>bufDescTable := (bufDescTable st)[i := (D st i)\<lparr>pinCnt := pinCnt (D st i) + 1, refbit := True\<rparr>]\<rparr>)"
    by (intro wf_update_desc [OF wf]) simp_all
  with Some show ?thesis by (simp add: readPage_def hash_lookup_def Let_def)
next
  case None
  obtain sa ra where a: "allocBuf st = (sa, ra)" by (cases "allocBuf st")
  note alloc = allocBuf_wf [OF wf a]
  show ?thesis
  proof (cases ra)
    case (Inl e)
    with None a alloc show ?thesis by (simp add: readPage_def hash_lookup_def)
  next
    case (Inr i)
    let ?sb = "sa\<lparr>files := (files sa)\<lparr>trace := trace (files sa) @ [IoRead f p]\<rparr>\<rparr>"
    from alloc have wfb: "wf_mgr ?sb" by (intro wf_trace) simp
    show ?thesis
    proof (cases "map_of (stored (files sa)) (f, p)")
      case None
      with \<open>idx st (Some f, p) = None\<close> a Inr wfb show ?thesis
        by (simp add: readPage_def hash_lookup_def file_readPage_def)
    next
      case (Some c)
      let ?pg = "\<lparr>page_number = p, contents = c\<rparr>"
      let ?d = "(BufDesc_Set f p (D sa i))\<lparr>refbit := True\<rparr>"
      let ?sc = "?sb\<lparr>bufPool := (bufPool ?sb)[i := ?pg],
                     hashTable := AList.update (Some f, p) i (hashTable ?sb),
                     bufDescTable := (bufDescTable ?sb)[i := ?d]\<rparr>"
      from alloc Inr have i: "i < numBufs ?sb" "\<not> valid (D ?sb i)" by simp_all
      from alloc \<open>idx st (Some f, p) = None\<close> have absent: "idx ?sb (Some f, p) = None"
        by (simp add: only_evicts_def)
      from Some have on_disk: "map_of (stored (files ?sb)) (f, p) = Some c" by simp
      from wfb i absent on_disk have "wf_mgr ?sc"
        by (rule wf_install) (simp_all add: BufDesc_Set_def)
      moreover from \<open>idx st (Some f, p) = None\<close> a Inr Some have "fst (readPage f p st) = ?sc"
        by (simp add: readPage_def hash_lookup_def file_readPage_def hash_insert_def)
      ultimately show ?thesis by simp
    qed
  qed
qed

lemma fresh_page_absent:
  assumes wf: "wf_mgr st"
  shows "idx st (Some f, fresh (files st) f) = None"
proof (cases "idx st (Some f, fresh (files st) f)")
  case None
  then show ?thesis .
next
  case (Some i)
  note v = wf_index_valid [OF wf Some]
  from wf_valid_stored [OF wf v(1,2)] v(3,4)
  obtain c where "map_of (stored (files st)) (f, fresh (files st) f) = Some c" by auto
  from wf_fresh [OF wf this] show ?thesis by simp
qed

lemma allocPage_wf:
  assumes wf: "wf_mgr st"
  shows "wf_mgr (fst (allocPage f st))"
proof -
  let ?p = "fresh (files st) f"
  let ?fs = "(files st)\<lparr>stored := AList.update (f, ?p) 0 (stored (files st)),
                        fresh := (fresh (files st))(f := ?p + 1),
                        trace := trace (files st) @ [IoAllocate f ?p]\<rparr>"
  let ?s0 = "st\<lparr>files := ?fs\<rparr>"
  have alloc_file: "file_allocatePage f (files st) = (?fs, \<lparr>page_number = ?p, contents = 0\<rparr>)"
    by (simp add: file_allocatePage_def Let_def)
  from wf_allocate [OF wf, of f] have wf0: "wf_mgr ?s0" by (simp add: alloc_file)
  from fresh_page_absent [OF wf] have absent0: "idx ?s0 (Some f, ?p) = None" by simp
  have stored0: "map_of (stored (files ?s0)) (f, ?p) = Some 0"
    by (simp add: update_conv')
  obtain sa ra where a: "allocBuf ?s0 = (sa, ra)" by (cases "allocBuf ?s0")
  note alloc = allocBuf_wf [OF wf0 a]
  show ?thesis
  proof (cases ra)
    case (Inl e)
    with a alloc show ?thesis by (simp add: allocPage_def alloc_file)
  next
    case (Inr i)
    from alloc stored0 obtain c where c: "map_of (stored (files sa)) (f, ?p) = Some c"
      unfolding only_evicts_def by blast
    let ?sb = "sa\<lparr>files := (files sa)\<lparr>trace := trace (files sa) @ [IoRead f ?p]\<rparr>\<rparr>"
    let ?pg = "\<lparr>page_number = ?p, contents = c\<rparr>"
    let ?d = "BufDesc_Set f ?p (D sa i)"
    let ?sc = "?sb\<lparr>bufPool := (bufPool ?sb)[i := ?pg],
                   hashTable := AList.update (Some f, ?p) i (hashTable ?sb),
                   bufDescTable := (bufDescTable ?sb)[i := ?d]\<rparr>"
    from alloc have wfb: "wf_mgr ?sb" by (intro wf_trace) simp
    from alloc Inr have i: "i < numBufs ?sb" "\<not> valid (D ?sb i)" by simp_all
    from alloc absent0 have absent: "idx ?sb (Some f, ?p) = None"
      by (simp add: only_evicts_def)
    from c have on_disk: "map_of (stored (files ?sb)) (f, ?p) = Some c" by simp
    from wfb i absent on_disk have "wf_mgr ?sc"
      by (rule wf_install) (simp_all add: BufDesc_Set_def)
    moreover from a Inr c have "fst (allocPage f st) = ?sc"
      by (simp add: allocPage_def alloc_file Let_def file_readPage_def hash_insert_def)
    ultimately show ?thesis by simp
  qed
qed

lemma disposePage_wf:
  assumes wf: "wf_mgr st"
  shows "wf_mgr (fst (disposePage f p st))"
proof (cases "idx st (Some f, p)")
  case None
  with wf show ?thesis by (simp add: disposePage_def hash_lookup_def wf_delete)
next
  case (Some i)
  note v = wf_index_valid [OF wf Some]
  let ?s1 = "st\<lparr>hashTable := AList.delete (fileP (D st i), pageNo (D st i)) (hashTable st),
                 bufDescTable := (bufDescTable st)[i := BufDesc_Clear (D st i)]\<rparr>"
  from wf v(1,2) have wf1: "wf_mgr ?s1" by (rule wf_clear)
  have "idx ?s1 (Some f, p) = None" using v by (simp add: delete_conv')
  with wf1 have "wf_mgr (?s1\<lparr>files := file_deletePage f p (files ?s1)\<rparr>)" by (rule wf_delete)
  moreover from Some v have "fst (disposePage f p st) = ?s1\<lparr>files := file_deletePage f p (files ?s1)\<rparr>"
    by (simp add: disposePage_def hash_lookup_def hash_remove_def Let_def)
  ultimately show ?thesis by simp
qed

lemma flushed_frame_wf:
  assumes wf: "wf_mgr st" and i: "i < numBufs st" "fileP (D st i) = Some f"
  shows "wf_mgr (flushed_frame f i st)"
proof -
  from wf i have v: "valid (D st i)" by (rule wf_file_valid)
  let ?s1 = "if dirty (D st i) then st\<lparr>files := file_writePage f (bufPool st ! i) (files st)\<rparr> else st"
  from wf i v have wf1: "wf_mgr ?s1" by (simp add: wf_write)
  have "flushed_frame f i st =
          ?s1\<lparr>hashTable := AList.delete (fileP (D ?s1 i), pageNo (D ?s1 i)) (hashTable ?s1),
               bufDescTable := (bufDescTable ?s1)[i := BufDesc_Clear (D st i)]\<rparr>"
    using i(2) by (simp add: flushed_frame_def)
  moreover from wf1 i(1) v
  have "wf_mgr (?s1\<lparr>hashTable := AList.delete (fileP (D ?s1 i), pageNo (D ?s1 i)) (hashTable ?s1),
               bufDescTable := (bufDescTable ?s1)[i := BufDesc_Clear (D st i)]\<rparr>)"
    by (intro wf_clear) simp_all
  ultimately show ?thesis by simp
qed

lemma flushFile_loop_wf:
  assumes "wf_mgr st" and "\<forall>j \<in> set js. j < numBufs st"
  shows "wf_mgr (fst (flushFile_loop js f st)) \<and> snd (flushFile_loop js f st) \<noteq> Inl HashNotFound"
  using assms
proof (induction js arbitrary: st)
  case Nil
  then show ?case by simp
next
  case (Cons i rest)
  then have i: "i < numBufs st" and rest: "\<forall>j \<in> set rest. j < numBufs st" by simp_all
  consider (skip) "fileP (D st i) \<noteq> Some f"
    | (pinned) "fileP (D st i) = Some f" "0 < pinCnt (D st i)"
    | (flush) "fileP (D st i) = Some f" "pinCnt (D st i) = 0"
    by auto
  then show ?case
  proof cases
    case skip
    with Cons.IH [OF Cons.prems(1) rest] show ?thesis by (simp add: flushFile_loop_skip)
  next
    case pinned
    with Cons.prems(1) show ?thesis by (simp add: flushFile_loop_pinned)
  next
    case flush
    from Cons.prems(1) i flush(1) have v: "valid (D st i)" by (rule wf_file_valid)
    from wf_valid_index [OF Cons.prems(1) i v] flush(1)
    have entry: "idx st (Some f, pageNo (D st i)) \<noteq> None" by simp
    from i wf_sizes(3) [OF Cons.prems(1)] have len: "i < length (bufDescTable st)" by simp
    from flush len entry
    have step: "flushFile_loop (i # rest) f st = flushFile_loop rest f (flushed_frame f i st)"
      by (rule flushFile_loop_flush)
    from Cons.prems(1) i flush(1) have "wf_mgr (flushed_frame f i st)" by (rule flushed_frame_wf)
    moreover from rest have "\<forall>j \<in> set rest. j < numBufs (flushed_frame f i st)"
      by (simp add: flushed_frame_fields)
    ultimately show ?thesis unfolding step by (rule Cons.IH)
  qed
qed

lemma flushFile_wf:
  assumes "wf_mgr st"
  shows "wf_mgr (fst (flushFile f st))" and "snd (flushFile f st) \<noteq> Inl HashNotFound"
  using flushFile_loop_wf [OF assms, of "[0..<numBufs st]" f] by (simp_all add: flushFile_def)

lemma step_wf:
  assumes "wf_mgr st"
  shows "wf_mgr (step st op)"
  using assms
  by (cases op) (simp_all add: readPage_wf unPinPage_wf allocPage_wf disposePage_wf flushFile_wf)

lemma run_wf:
  assumes "wf_mgr st"
  shows "wf_mgr (run ops st)"
  using assms unfolding run_def
  by (induction ops arbitrary: st) (simp_all add: step_wf)


lemma flushFile_succeeds:
  assumes wf: "wf_mgr st" and unpinned: "\<forall>i<numBufs st. fileP (D st i) = Some f \<longrightarrow> pinCnt (D st i) = 0"
  shows "snd (flushFile f st) = Inr ()"
proof -
  obtain st' r where run: "flushFile f st = (st', r)" by (cases "flushFile f st")
  from flushFile_wf(2) [OF wf, of f] run have "r \<noteq> Inl HashNotFound" by simp
  from flushFile_range [OF run wf_sizes(3) [OF wf] this] unpinned
  have "r = Inr ()" by (cases r) auto
  with run show ?thesis by simp
qed

lemma step_numBufs:
  assumes wf: "wf_mgr st"
  shows "numBufs (step st op) = numBufs st"
proof (cases op)
  case (Fetch f p)
  obtain sa ra where a: "allocBuf st = (sa, ra)" by (cases "allocBuf st")
  from allocBuf_wf [OF wf a] have "numBufs sa = numBufs st" by simp
  with a Fetch show ?thesis
    by (auto simp add: readPage_def file_readPage_def Let_def split: sum.splits prod.splits)
next
  case (Unpin f p b)
  then show ?thesis
    by (auto simp add: unPinPage_def Let_def split: sum.splits)
next
  case (Alloc f)
  let ?s0 = "st\<lparr>files := fst (file_allocatePage f (files st))\<rparr>"
  obtain sa ra where a: "allocBuf ?s0 = (sa, ra)" by (cases "allocBuf ?s0")
  from allocBuf_wf [OF wf_allocate [OF wf] a] have "numBufs sa = numBufs st" by simp
  with a Alloc show ?thesis
    by (auto simp add: allocPage_def file_allocatePage_def file_readPage_def Let_def
        split: sum.splits prod.splits)
next
  case (Dispose f p)
  then show ?thesis
    by (auto simp add: disposePage_def Let_def split: sum.splits)
next
  case (Flush f)
  obtain st' r where run: "flushFile f st = (st', r)" by (cases "flushFile f st")
  from flushFile_wf(2) [OF wf, of f] run have "r \<noteq> Inl HashNotFound" by simp
  from flushFile_range [OF run wf_sizes(3) [OF wf] this]
  have "numBufs st' = numBufs st" by (auto simp add: flush_result_def)
  with run Flush show ?thesis by simp
qed

lemma run_numBufs:
  assumes "wf_mgr st"
  shows "numBufs (run ops st) = numBufs st"
  using assms unfolding run_def
  by (induction ops arbitrary: st) (simp_all add: step_wf step_numBufs)

lemma flushFile_throws_when_pinned:
  assumes wf: "wf_mgr st" and i: "i < numBufs st" "fileP (D st i) = Some f" "0 < pinCnt (D st i)"
  shows "\<exists>st' m. m \<le> i \<and> flushFile f st = (st', Inl (PagePinned f (pageNo (D st m)) m))"
proof -
  obtain st' r where run: "flushFile f st = (st', r)" by (cases "flushFile f st")
  from flushFile_wf(2) [OF wf, of f] run have "r \<noteq> Inl HashNotFound" by simp
  from flushFile_range [OF run wf_sizes(3) [OF wf] this]
  obtain m where m: "m \<le> numBufs st" "flush_result f 0 m st st'"
    "case r of Inr u \<Rightarrow> m = numBufs st
     | Inl e \<Rightarrow> m < numBufs st \<and> fileP (D st m) = Some f \<and> 0 < pinCnt (D st m) \<and>
         e = PagePinned f (pageNo (D st m)) m"
    by blast
  have "\<not> i < m"
  proof
    assume "i < m"
    with i(2) have "i \<in> frames_of f st 0 m" by (simp add: frames_of_def)
    with m(2) have "pinCnt (D st i) = 0" by (simp add: flush_result_def)
    with i(3) show False by simp
  qed
  with i(1) m(3) have "m \<le> i \<and> r = Inl (PagePinned f (pageNo (D st m)) m)"
    by (cases r) auto
  with run show ?thesis by blast
qed

lemma mixed3_reached: "run [Unpin 7 1 False] pinned3 = mixed3"
  by (simp add: run_def step_defs example_defs)

lemma wf_mixed3: "wf_mgr mixed3"
  by (simp add: inv_defs example_defs all_less_numeral)

text \<open>
  C4: in a state satisfying the invariant, if some frame of the file is pinned then
  \<open>flushFile\<close> throws the pinned-page exception, for a frame at or before that one. And
  when \<open>flushFile\<close> throws the pinned-page exception for frame \<open>i\<close>, that frame belongs to
  the file and is pinned, and no frame of the file before \<open>i\<close> is pinned, so the scan went
  up from frame 0 and stopped at the first pinned frame. Every frame of the file before
  \<open>i\<close> is cleared and its index entry removed; the pages written are the dirty ones among
  them, in increasing frame order. Frame \<open>i\<close>, the frames after it, the frames of other
  files, every other index entry, the buffers and the hand are as before.
\<close>

theorem flushFile_pinned_aborts_in_frame_order:
  "(\<forall>i. wf_mgr st \<and> i < numBufs st \<and> fileP (D st i) = Some f \<and> 0 < pinCnt (D st i) \<longrightarrow>
      (\<exists>st' m. m \<le> i \<and> flushFile f st = (st', Inl (PagePinned f (pageNo (D st m)) m)))) \<and>
   (\<forall>st' f' p i.
      flushFile f st = (st', Inl (PagePinned f' p i)) \<and> length (bufDescTable st) = numBufs st \<longrightarrow>
      f' = f \<and> i < numBufs st \<and> fileP (D st i) = Some f \<and> 0 < pinCnt (D st i) \<and>
      p = pageNo (D st i) \<and>
      (\<forall>j<i. fileP (D st j) = Some f \<longrightarrow>
         pinCnt (D st j) = 0 \<and> D st' j = BufDesc_Clear (D st j) \<and>
         idx st' (Some f, pageNo (D st j)) = None) \<and>
      (\<forall>j. i \<le> j \<or> fileP (D st j) \<noteq> Some f \<longrightarrow> D st' j = D st j) \<and>
      (\<forall>key. (\<forall>j<i. fileP (D st j) = Some f \<longrightarrow> key \<noteq> (Some f, pageNo (D st j))) \<longrightarrow>
         idx st' key = idx st key) \<and>
      bufPool st' = bufPool st \<and> clockHand st' = clockHand st \<and>
      files st' =
        fold (\<lambda>j. file_writePage f (bufPool st ! j))
          (filter (\<lambda>j. fileP (D st j) = Some f \<and> dirty (D st j)) [0..<i]) (files st) \<and>
      trace (files st') =
        trace (files st) @
        map (\<lambda>j. IoWrite f (bufPool st ! j))
          (filter (\<lambda>j. fileP (D st j) = Some f \<and> dirty (D st j)) [0..<i]))"
proof (rule conjI; intro allI impI)
  fix i
  assume "wf_mgr st \<and> i < numBufs st \<and> fileP (D st i) = Some f \<and> 0 < pinCnt (D st i)"
  then show "\<exists>st' m. m \<le> i \<and> flushFile f st = (st', Inl (PagePinned f (pageNo (D st m)) m))"
    by (intro flushFile_throws_when_pinned) simp_all
next
  fix st' f' p i
  assume "flushFile f st = (st', Inl (PagePinned f' p i)) \<and> length (bufDescTable st) = numBufs st"
  then have run: "flushFile f st = (st', Inl (PagePinned f' p i))"
    and len: "length (bufDescTable st) = numBufs st"
    by simp_all
  from run len show "f' = f \<and> i < numBufs st \<and> fileP (D st i) = Some f \<and> 0 < pinCnt (D st i) \<and>
      p = pageNo (D st i) \<and>
      (\<forall>j<i. fileP (D st j) = Some f \<longrightarrow>
         pinCnt (D st j) = 0 \<and> D st' j = BufDesc_Clear (D st j) \<and>
         idx st' (Some f, pageNo (D st j)) = None) \<and>
      (\<forall>j. i \<le> j \<or> fileP (D st j) \<noteq> Some f \<longrightarrow> D st' j = D st j) \<and>
      (\<forall>key. (\<forall>j<i. fileP (D st j) = Some f \<longrightarrow> key \<noteq> (Some f, pageNo (D st j))) \<longrightarrow>
         idx st' key = idx st key) \<and>
      bufPool st' = bufPool st \<and> clockHand st' = clockHand st \<and>
      files st' =
        fold (\<lambda>j. file_writePage f (bufPool st ! j))
          (filter (\<lambda>j. fileP (D st j) = Some f \<and> dirty (D st j)) [0..<i]) (files st) \<and>
      trace (files st') =
        trace (files st) @
        map (\<lambda>j. IoWrite f (bufPool st ! j))
          (filter (\<lambda>j. fileP (D st j) = Some f \<and> dirty (D st j)) [0..<i])"
    by (rule flushFile_pinned_effect)
qed

theorem flushFile_pinned_aborts_in_frame_order_witness:
  "wf_mgr mixed3 \<and> fileP (D mixed3 2) = Some 7 \<and> 0 < pinCnt (D mixed3 2) \<and>
   (\<exists>st' m. m \<le> 2 \<and> flushFile 7 mixed3 = (st', Inl (PagePinned 7 (pageNo (D mixed3 m)) m)) \<and>
      m = 1 \<and> D st' 0 = empty_desc 0 \<and> idx st' (Some 7, 1) = None \<and>
      D st' 1 = D mixed3 1 \<and> D st' 2 = D mixed3 2 \<and>
      idx st' (Some 7, 2) = Some 1 \<and> idx st' (Some 7, 3) = Some 2 \<and>
      trace (files st') = trace (files mixed3) @ [IoWrite 7 \<lparr>page_number = 1, contents = 11\<rparr>])"
proof -
  note claim = flushFile_pinned_aborts_in_frame_order [of mixed3 7]
  have pinned: "wf_mgr mixed3 \<and> 2 < numBufs mixed3 \<and> fileP (D mixed3 2) = Some 7 \<and>
      0 < pinCnt (D mixed3 2)"
    by (simp add: wf_mixed3) (simp add: example_defs)
  from claim [THEN conjunct1, rule_format, OF pinned] obtain st' m
    where m: "m \<le> 2" and run: "flushFile 7 mixed3 = (st', Inl (PagePinned 7 (pageNo (D mixed3 m)) m))"
    by blast
  have len: "length (bufDescTable mixed3) = numBufs mixed3"
    by (simp add: example_defs)
  have pre: "fileP (D mixed3 0) = Some 7" "dirty (D mixed3 0)" "pinCnt (D mixed3 0) = 0"
    "BufDesc_Clear (D mixed3 0) = empty_desc 0"
    "pageNo (D mixed3 0) = 1" "bufPool mixed3 ! 0 = \<lparr>page_number = 1, contents = 11\<rparr>"
    "fileP (D mixed3 1) = Some 7" "0 < pinCnt (D mixed3 1)"
    "idx mixed3 (Some 7, 2) = Some 1" "idx mixed3 (Some 7, 3) = Some 2"
    by (simp_all add: BufDesc_Clear_def example_defs)
  from claim [THEN conjunct2, rule_format, OF conjI [OF run len]]
  have effect: "0 < pinCnt (D mixed3 m) \<and>
      (\<forall>j<m. fileP (D mixed3 j) = Some 7 \<longrightarrow>
         pinCnt (D mixed3 j) = 0 \<and> D st' j = BufDesc_Clear (D mixed3 j) \<and>
         idx st' (Some 7, pageNo (D mixed3 j)) = None) \<and>
      (\<forall>j. m \<le> j \<or> fileP (D mixed3 j) \<noteq> Some 7 \<longrightarrow> D st' j = D mixed3 j) \<and>
      (\<forall>key. (\<forall>j<m. fileP (D mixed3 j) = Some 7 \<longrightarrow> key \<noteq> (Some 7, pageNo (D mixed3 j))) \<longrightarrow>
         idx st' key = idx mixed3 key) \<and>
      trace (files st') =
        trace (files mixed3) @
        map (\<lambda>j. IoWrite 7 (bufPool mixed3 ! j))
          (filter (\<lambda>j. fileP (D mixed3 j) = Some 7 \<and> dirty (D mixed3 j)) [0..<m])"
    by (elim conjE, intro conjI) assumption+
  have m1: "m = 1"
  proof -
    from effect pre(3) have "m \<noteq> 0" by (auto intro: ccontr)
    moreover have "\<not> 1 < m"
    proof
      assume "1 < m"
      with effect pre(7) have "pinCnt (D mixed3 1) = 0" by blast
      with pre(8) show False by simp
    qed
    ultimately show ?thesis by simp
  qed
  from effect pre have "D st' 0 = empty_desc 0 \<and> idx st' (Some 7, 1) = None \<and>
      D st' 1 = D mixed3 1 \<and> D st' 2 = D mixed3 2 \<and>
      idx st' (Some 7, 2) = Some 1 \<and> idx st' (Some 7, 3) = Some 2 \<and>
      trace (files st') = trace (files mixed3) @ [IoWrite 7 \<lparr>page_number = 1, contents = 11\<rparr>]"
    unfolding m1 by (simp add: upt_rec)
  with pinned m run m1 show ?thesis by blast
qed

text \<open>
  C3: in every state reached from the constructor by public operations, whether they
  return or throw, the invariant of the spec holds: invalid frames have pin count 0 and are
  not dirty, every index entry names a valid frame carrying the entry's (file, page
  number), and every valid frame is the one the index maps its pair to, so two valid
  frames never carry the same pair. The pool has between 1 and \<open>2^32 - 2\<close> frames, and
  the files start with no stored page numbered at or above the next number they hand out.
\<close>

theorem state_inv_after_every_operation:
  assumes "0 < n" and "n < 2 ^ 32 - 1" and "disk_fresh fs"
  shows "state_inv (run ops (BufMgr_init n fs)) \<and>
         (\<forall>i<n. \<forall>j<n.
            valid (D (run ops (BufMgr_init n fs)) i) \<and> valid (D (run ops (BufMgr_init n fs)) j) \<and>
            fileP (D (run ops (BufMgr_init n fs)) i) = fileP (D (run ops (BufMgr_init n fs)) j) \<and>
            pageNo (D (run ops (BufMgr_init n fs)) i) = pageNo (D (run ops (BufMgr_init n fs)) j) \<longrightarrow>
            i = j)"
proof -
  let ?st = "run ops (BufMgr_init n fs)"
  from assms have wf0: "wf_mgr (BufMgr_init n fs)" by (rule wf_init)
  then have wf: "wf_mgr ?st" by (rule run_wf)
  then have inv: "state_inv ?st" by (simp add: wf_mgr_def)
  from wf0 have n: "numBufs ?st = n" by (simp add: run_numBufs BufMgr_init_def)
  have "i = j"
    if ij: "i < n" "j < n" and v: "valid (D ?st i)" "valid (D ?st j)"
      and same: "fileP (D ?st i) = fileP (D ?st j)" "pageNo (D ?st i) = pageNo (D ?st j)" for i j
  proof -
    from wf ij(1) v(1) n have "idx ?st (fileP (D ?st i), pageNo (D ?st i)) = Some i"
      by (intro wf_valid_index) simp_all
    then have "idx ?st (fileP (D ?st j), pageNo (D ?st j)) = Some i"
      by (simp only: same)
    moreover from wf ij(2) v(2) n have "idx ?st (fileP (D ?st j), pageNo (D ?st j)) = Some j"
      by (intro wf_valid_index) simp_all
    ultimately show ?thesis by simp
  qed
  with inv show ?thesis by blast
qed

theorem state_inv_after_every_operation_witness:
  "disk_fresh disk0 \<and>
   run [Fetch 7 1, Fetch 7 2, Fetch 7 3] (BufMgr_init 3 disk0) = pinned3 \<and>
   state_inv pinned3 \<and> valid (D pinned3 0) \<and> valid (D pinned3 1) \<and>
   pageNo (D pinned3 0) \<noteq> pageNo (D pinned3 1)"
proof -
  have fresh: "disk_fresh disk0" by (simp add: disk_fresh_def disk0_def)
  have size: "(0::nat) < 3" "(3::nat) < 2 ^ 32 - 1" by simp_all
  from state_inv_after_every_operation [OF size fresh, of "[Fetch 7 1, Fetch 7 2, Fetch 7 3]"]
  have "state_inv pinned3" unfolding pinned3_reached by (rule conjunct1)
  moreover have "valid (D pinned3 0) \<and> valid (D pinned3 1) \<and>
      pageNo (D pinned3 0) \<noteq> pageNo (D pinned3 1)"
    by (simp add: example_defs)
  ultimately show ?thesis using fresh pinned3_reached by blast
qed

section \<open>The scan bound\<close>

lemma init2: "BufMgr_init 2 disk0 =
  \<lparr>numBufs = 2, bufDescTable = [empty_desc 0, empty_desc 1],
   bufPool = [\<lparr>page_number = 0, contents = 0\<rparr>, \<lparr>page_number = 0, contents = 0\<rparr>],
   hashTable = [], clockHand = 1, files = disk0\<rparr>"
  by (simp add: BufMgr_init_def empty_desc_def upt_rec numeral_eq_Suc)

lemma two_frames_reached:
  "run [Fetch 7 1, Fetch 7 2, Unpin 7 2 False] (BufMgr_init 2 disk0) = two_frames"
  by (simp add: run_def init2) (simp add: step_defs example_defs)

lemma wf_two_frames: "wf_mgr two_frames"
  by (simp add: inv_defs example_defs all_less_numeral)

lemma hand_after_step:
  fixes c n m :: nat
  shows "((c + 1) mod n + 1 + m) mod n = (c + 1 + Suc m) mod n"
proof -
  have "((c + 1) mod n + (1 + m)) mod n = ((c + 1) + (1 + m)) mod n"
    by (rule mod_add_left_eq)
  then show ?thesis by (simp only: add.assoc plus_1_eq_Suc)
qed

lemma hand_reaches:
  fixes c n i :: nat
  assumes "i < n"
  shows "(c + 1 + (i + n - (c + 1) mod n) mod n) mod n = i"
proof -
  let ?r = "(c + 1) mod n"
  from assms have r: "?r \<le> n" by (simp add: less_imp_le)
  have "(c + 1 + (i + n - ?r) mod n) mod n = (c + 1 + (i + n - ?r)) mod n"
    by (rule mod_add_right_eq)
  also have "\<dots> = (?r + (i + n - ?r)) mod n"
    by (rule mod_add_left_eq [symmetric])
  also from r have "?r + (i + n - ?r) = i + n" by simp
  also from assms have "(i + n) mod n = i" by simp
  finally show ?thesis .
qed

lemma allocBuf_loop_reaches_invalid:
  assumes wf: "wf_mgr st" and m: "m < k"
    and invalid: "\<not> valid (D st ((clockHand st + 1 + m) mod numBufs st))"
  shows "\<exists>j. snd (allocBuf_loop k st) = Inr j"
  using assms
proof (induction k arbitrary: st m)
  case 0
  then show ?case by simp
next
  case (Suc k)
  let ?n = "numBufs st"
  let ?st1 = "advanceClock st"
  let ?h = "clockHand ?st1"
  note wf = Suc.prems(1)
  from wf have wf1: "wf_mgr ?st1" by (rule wf_advanceClock)
  from wf_sizes [OF wf] have h_eq: "?h = (clockHand st + 1) mod ?n"
    by (simp add: advanceClock_def)
  have n1: "numBufs ?st1 = ?n" and d1: "bufDescTable ?st1 = bufDescTable st"
    by (simp_all add: advanceClock_def)
  from wf1 have h: "?h < numBufs ?st1" by (rule wf_sizes)
  consider (empty) "\<not> valid (D ?st1 ?h)"
    | (ref) "valid (D ?st1 ?h)" "refbit (D ?st1 ?h)"
    | (pinned) "valid (D ?st1 ?h)" "\<not> refbit (D ?st1 ?h)" "pinCnt (D ?st1 ?h) > 0"
    | (victim) "valid (D ?st1 ?h)" "\<not> refbit (D ?st1 ?h)" "pinCnt (D ?st1 ?h) = 0"
    by blast
  then show ?case
  proof cases
    case empty
    then show ?thesis by (simp add: Let_def)
  next
    case victim
    from evict_wf [OF wf1 h victim(1)] victim show ?thesis by (auto simp add: Let_def)
  next
    case ref
    let ?st2 = "?st1\<lparr>bufDescTable := (bufDescTable ?st1)[?h := (D ?st1 ?h)\<lparr>refbit := False\<rparr>]\<rparr>"
    from wf1 have wf2: "wf_mgr ?st2" by (rule wf_update_desc) (simp_all add: ref)
    from ref(1) Suc.prems(3) h_eq d1 have "m \<noteq> 0" by (auto intro: ccontr)
    then obtain m' where m': "m = Suc m'" by (cases m) auto
    with Suc.prems(2) have less: "m' < k" by simp
    have "(clockHand ?st2 + 1 + m') mod numBufs ?st2 = (clockHand st + 1 + m) mod ?n"
      using hand_after_step [of "clockHand st" ?n m'] by (simp add: n1 h_eq m')
    moreover have "valid (D ?st2 i) = valid (D st i)" for i
      by (simp add: d1 nth_list_update_if)
    ultimately have "\<not> valid (D ?st2 ((clockHand ?st2 + 1 + m') mod numBufs ?st2))"
      using Suc.prems(3) by simp
    from Suc.IH [OF wf2 less this] ref show ?thesis by (simp add: Let_def)
  next
    case pinned
    from pinned(1) Suc.prems(3) h_eq d1 have "m \<noteq> 0" by (auto intro: ccontr)
    then obtain m' where m': "m = Suc m'" by (cases m) auto
    with Suc.prems(2) have less: "m' < k" by simp
    have "(clockHand ?st1 + 1 + m') mod numBufs ?st1 = (clockHand st + 1 + m) mod ?n"
      using hand_after_step [of "clockHand st" ?n m'] by (simp add: n1 h_eq m')
    with Suc.prems(3) d1 have "\<not> valid (D ?st1 ((clockHand ?st1 + 1 + m') mod numBufs ?st1))"
      by simp
    from Suc.IH [OF wf1 less this] pinned show ?thesis by (simp add: Let_def)
  qed
qed

lemma allocBuf_succeeds_with_invalid_frame:
  assumes wf: "wf_mgr st" and i: "i < numBufs st" "\<not> valid (D st i)"
  shows "\<exists>j. snd (allocBuf st) = Inr j"
proof -
  let ?n = "numBufs st"
  let ?m = "(i + ?n - (clockHand st + 1) mod ?n) mod ?n"
  from wf_sizes [OF wf] have n: "0 < ?n" and c: "clockHand st < ?n" by simp_all
  from hand_reaches [OF i(1), of "clockHand st"] i(2)
  have "\<not> valid (D st ((clockHand st + 1 + ?m) mod ?n))" by simp
  moreover from n have "?m < ?n + 1" by (simp add: less_Suc_eq_le less_imp_le [OF mod_less_divisor])
  ultimately show ?thesis unfolding allocBuf_def using wf
    by (intro allocBuf_loop_reaches_invalid [where m = ?m]) simp_all
qed

lemma allocBuf_loop_all_pinned:
  assumes "\<forall>i<numBufs st. valid (D st i) \<and> 0 < pinCnt (D st i)"
    and "0 < numBufs st"
  shows "snd (allocBuf_loop k st) = Inl BufferExceeded"
  using assms
proof (induction k arbitrary: st)
  case 0
  then show ?case by simp
next
  case (Suc k)
  let ?st1 = "advanceClock st"
  let ?h = "clockHand ?st1"
  let ?st2 = "?st1\<lparr>bufDescTable := (bufDescTable ?st1)[?h := (D ?st1 ?h)\<lparr>refbit := False\<rparr>]\<rparr>"
  from Suc.prems(2) have h: "?h < numBufs st" by (simp add: advanceClock_def)
  have same: "numBufs ?st1 = numBufs st" "bufDescTable ?st1 = bufDescTable st"
    by (simp_all add: advanceClock_def)
  from Suc.prems(1) h same have here: "valid (D ?st1 ?h)" "0 < pinCnt (D ?st1 ?h)" by simp_all
  have all1: "\<forall>i<numBufs ?st1. valid (D ?st1 i) \<and> 0 < pinCnt (D ?st1 i)"
    using Suc.prems(1) by (simp add: same)
  have all2: "\<forall>i<numBufs ?st2. valid (D ?st2 i) \<and> 0 < pinCnt (D ?st2 i)"
    using Suc.prems(1) by (simp add: same nth_list_update_if)
  show ?case
  proof (cases "refbit (D ?st1 ?h)")
    case True
    with here Suc.IH [OF all2] Suc.prems(2) show ?thesis by (simp add: Let_def same)
  next
    case False
    with here Suc.IH [OF all1] Suc.prems(2) show ?thesis by (simp add: Let_def same)
  qed
qed

lemma allocBuf_fails_when_all_pinned:
  assumes "\<forall>i<numBufs st. valid (D st i) \<and> 0 < pinCnt (D st i)" and "0 < numBufs st"
  shows "snd (allocBuf st) = Inl BufferExceeded"
  unfolding allocBuf_def using assms by (rule allocBuf_loop_all_pinned)

text \<open>
  C2: the claim is that the allocator fails only when every frame is pinned. It does fail
  when every frame is pinned, and it does return a frame when some frame is invalid. But the
  scan stops after \<open>numBufs + 1\<close> inspections. In \<open>two_frames\<close>, reached by fetching the
  pages 1 and 2 and unpinning page 2, frame 1 is valid and not pinned, yet the scan clears
  the two reference bits, meets the pinned frame 0 on its third inspection and gives up:
  \<open>allocBuf\<close>, and with it \<open>readPage\<close> and \<open>allocPage\<close>, throw the capacity-exhausted
  exception.
\<close>

theorem allocBuf_fails_with_unpinned_frame:
  "run [Fetch 7 1, Fetch 7 2, Unpin 7 2 False] (BufMgr_init 2 disk0) = two_frames \<and>
   valid (D two_frames 1) \<and> pinCnt (D two_frames 1) = 0 \<and>
   snd (allocBuf two_frames) = Inl BufferExceeded \<and>
   snd (readPage 7 3 two_frames) = Inl BufferExceeded \<and>
   snd (allocPage 7 two_frames) = Inl BufferExceeded"
proof (intro conjI)
  show "run [Fetch 7 1, Fetch 7 2, Unpin 7 2 False] (BufMgr_init 2 disk0) = two_frames"
    by (rule two_frames_reached)
  show "valid (D two_frames 1)" "pinCnt (D two_frames 1) = 0"
    by (simp_all add: example_defs)
  show "snd (allocBuf two_frames) = Inl BufferExceeded"
    by (simp add: step_defs example_defs)
  show "snd (readPage 7 3 two_frames) = Inl BufferExceeded"
    by (simp add: step_defs example_defs)
  show "snd (allocPage 7 two_frames) = Inl BufferExceeded"
    by (simp add: step_defs allocPage_def file_allocatePage_def example_defs)
qed

end
